theory Spec2Isabelle
  imports Main "HOL-Library.Sublist"
begin

section \<open>The recolorizer script \<open>colourizer.py\<close>\<close>

text \<open>
  The script opens \<open>asm.karyotype\<close> for reading, \<open>asm.karyotype2\<close> for writing and
  \<open>good_contigs.txt\<close> for reading, loads the right-stripped lines of the contig file into
  a list, and copies the karyotype file line by line, replacing \<open>vvlgrey\<close> by \<open>red\<close> on
  the lines whose field 3 is in that list.

  A Python \<open>str\<close> is modelled as a \<open>string\<close>, one \<open>char\<close> per code point (the code
  points 0 to 255). A text file is its decoded content. Reading translates the line
  terminators (universal newlines); writing is modelled for a platform whose line
  separator is \<open>\n\<close>, where text mode stores the written string as it is.
\<close>

subsection \<open>The string methods the script calls\<close>

text \<open>
  The characters that \<open>str.rstrip()\<close> and \<open>str.split()\<close>, called without argument, treat
  as whitespace: tab, line feed, vertical tab, form feed, carriage return, the four
  separators 28 to 31, the space, NEL (133) and the no-break space (160).
\<close>

definition isspace :: "char \<Rightarrow> bool" where
  "isspace c \<longleftrightarrow> (of_char c :: nat) \<in> {9, 10, 11, 12, 13, 28, 29, 30, 31, 32, 133, 160}"

text \<open>\<open>s.rstrip()\<close>: the string without its trailing whitespace.\<close>

definition rstrip :: "string \<Rightarrow> string" where
  "rstrip s = rev (dropWhile isspace (rev s))"

text \<open>
  \<open>s.split()\<close>: skip whitespace, take the maximal run of other characters as a field,
  and go on after it.
\<close>

function split :: "string \<Rightarrow> string list" where
  "split [] = []"
| "split (c # cs) =
     (if isspace c then split cs
      else takeWhile (\<lambda>x. \<not> isspace x) (c # cs) # split (dropWhile (\<lambda>x. \<not> isspace x) cs))"
  by pat_completeness auto
termination
  by (relation "measure length") (auto simp: le_imp_less_Suc length_dropWhile_le)

text \<open>
  \<open>s.replace(old, new)\<close>: the occurrences of \<open>old\<close> are found from the left, and the
  search goes on after each replaced occurrence. With an empty \<open>old\<close>, Python puts
  \<open>new\<close> before every character and at the end.
\<close>

function replace :: "string \<Rightarrow> string \<Rightarrow> string \<Rightarrow> string" where
  "replace old new s =
     (if old = [] then new @ concat (map (\<lambda>c. c # new) s)
      else if s = [] then []
      else if prefix old s then new @ replace old new (drop (length old) s)
      else hd s # replace old new (tl s))"
  by pat_completeness auto
termination
  by (relation "measure (\<lambda>(old, new, s). length s)") auto

declare replace.simps [simp del]

text \<open>The one replacement the script makes: \<open>line.replace('vvlgrey','red')\<close>.\<close>

abbreviation recolour :: "string \<Rightarrow> string" where
  "recolour \<equiv> replace ''vvlgrey'' ''red''"

subsection \<open>Reading a text file line by line\<close>

abbreviation LF :: char where "LF \<equiv> CHR 0x0A"
abbreviation CR :: char where "CR \<equiv> CHR 0x0D"

text \<open>
  A file opened with \<open>open(name, 'r')\<close> reads with universal newlines: \<open>\r\n\<close> and a
  lone \<open>\r\<close> arrive as \<open>\n\<close>.
\<close>

fun universal_newlines :: "string \<Rightarrow> string" where
  "universal_newlines [] = []"
| "universal_newlines (c # cs) =
     (if c = CR then
        (case cs of
           [] \<Rightarrow> [LF]
         | d # ds \<Rightarrow> if d = LF then LF # universal_newlines ds else LF # universal_newlines cs)
      else c # universal_newlines cs)"

text \<open>
  Iterating over the file yields its lines, each with its \<open>\n\<close>; the last line has none
  when the file does not end with one. An empty file yields no line.
\<close>

fun keepends :: "string \<Rightarrow> string list" where
  "keepends [] = []"
| "keepends (c # cs) =
     (if c = LF then [c] # keepends cs
      else (case keepends cs of [] \<Rightarrow> [[c]] | l # ls \<Rightarrow> (c # l) # ls))"

definition file_lines :: "string \<Rightarrow> string list" where
  "file_lines content = keepends (universal_newlines content)"

subsection \<open>The script\<close>

datatype error = OSError | IndexError

text \<open>
  The three files the script names. A file that \<open>open\<close> cannot open for reading is
  \<open>None\<close>; \<open>asm_karyotype2\<close> is the content of the output file (\<open>None\<close> when there is
  none), and \<open>asm_karyotype2_writable\<close> tells whether \<open>open(..., 'w')\<close> succeeds.
\<close>

record files =
  asm_karyotype :: "string option"
  asm_karyotype2 :: "string option"
  asm_karyotype2_writable :: bool
  good_contigs :: "string option"

text \<open>\<open>parts = line.rstrip().split()\<close>\<close>

definition parts :: "string \<Rightarrow> string list" where
  "parts line = split (rstrip line)"

text \<open>
  The body of the loop, for one line: the string handed to \<open>fout.write\<close>, or the
  IndexError of \<open>parts[3]\<close>.
\<close>

definition process_line :: "string list \<Rightarrow> string \<Rightarrow> error + string" where
  "process_line tigs line =
     (if length (parts line) \<le> 3 then Inl IndexError
      else if parts line ! 3 \<in> set tigs then Inr (replace ''vvlgrey'' ''red'' line)
      else Inr line)"

text \<open>
  \<open>for line in fin\<close>: the strings written so far are threaded through; an error stops
  the loop and keeps what was written.
\<close>

fun loop :: "string list \<Rightarrow> string list \<Rightarrow> string list \<Rightarrow> error option \<times> string list" where
  "loop tigs [] written = (None, written)"
| "loop tigs (line # rest) written =
     (case process_line tigs line of
        Inl e \<Rightarrow> (Some e, written)
      | Inr out \<Rightarrow> loop tigs rest (written @ [out]))"

text \<open>
  The whole script. The \<open>with\<close> statement opens the files from left to right, so the
  output file is already truncated when the contig file fails to open; leaving the
  \<open>with\<close> block, also by an error, closes the output file with everything written.
\<close>

definition main :: "files \<Rightarrow> error option \<times> files" where
  "main fs =
     (case asm_karyotype fs of
        None \<Rightarrow> (Some OSError, fs)
      | Some fin \<Rightarrow>
          if \<not> asm_karyotype2_writable fs then (Some OSError, fs)
          else
            (case good_contigs fs of
               None \<Rightarrow> (Some OSError, fs\<lparr>asm_karyotype2 := Some []\<rparr>)
             | Some fin2 \<Rightarrow>
                 let tigs = map rstrip (file_lines fin2);
                     (err, written) = loop tigs (file_lines fin) []
                 in (err, fs\<lparr>asm_karyotype2 := Some (concat written)\<rparr>)))"

subsection \<open>Notions used to state the properties\<close>

text \<open>
  What one call of \<open>fout.write\<close> receives for a line that has a field 3: the two
  branches of the \<open>if\<close>.
\<close>

abbreviation out_line :: "string list \<Rightarrow> string \<Rightarrow> string" where
  "out_line tigs line \<equiv> (if parts line ! 3 \<in> set tigs then recolour line else line)"

text \<open>\<open>sep.join(pieces)\<close>: the pieces with \<open>sep\<close> between them.\<close>

fun join :: "string \<Rightarrow> string list \<Rightarrow> string" where
  "join sep [] = []"
| "join sep [p] = p"
| "join sep (p # ps) = p @ sep @ join sep ps"

text \<open>
  A line with only its trailing newline stripped, as the specification words the loading
  of the contig names. The script itself calls \<open>rstrip\<close>.
\<close>

definition strip_newline :: "string \<Rightarrow> string" where
  "strip_newline l = (if l \<noteq> [] \<and> last l = LF then butlast l else l)"

text \<open>
  The lines of a file as they are stored: the content is cut after each \<open>\n\<close>, each
  \<open>\r\n\<close> and each lone \<open>\r\<close>, and every line keeps its terminator. Reading in text
  mode hands each of them over with its terminator translated to \<open>\n\<close>.
\<close>

fun raw_lines :: "string \<Rightarrow> string list" where
  "raw_lines [] = []"
| "raw_lines (c # cs) =
     (if c = LF then [c] # raw_lines cs
      else if c = CR then
        (case cs of
           [] \<Rightarrow> [[CR]]
         | d # ds \<Rightarrow> if d = LF then [CR, LF] # raw_lines ds else [CR] # raw_lines cs)
      else (case raw_lines cs of [] \<Rightarrow> [[c]] | l # ls \<Rightarrow> (c # l) # ls))"

text \<open>
  The shape of the lines of a text file: every line but the last ends with its only
  \<open>\n\<close>, and the last line is not empty and has no \<open>\n\<close> before its end.
\<close>

definition terminated :: "string \<Rightarrow> bool" where
  "terminated l \<longleftrightarrow> l \<noteq> [] \<and> last l = LF \<and> LF \<notin> set (butlast l)"

definition unterminated :: "string \<Rightarrow> bool" where
  "unterminated l \<longleftrightarrow> l \<noteq> [] \<and> LF \<notin> set l"

fun well_formed :: "string list \<Rightarrow> bool" where
  "well_formed [] = True"
| "well_formed [l] = (terminated l \<or> unterminated l)"
| "well_formed (l # ls) = (terminated l \<and> well_formed ls)"

subsection \<open>How \<open>replace\<close> unfolds\<close>

lemma replace_Nil: "old \<noteq> [] \<Longrightarrow> replace old new [] = []"
  by (simp add: replace.simps)

lemma replace_match: "old \<noteq> [] \<Longrightarrow> replace old new (old @ t) = new @ replace old new t"
  by (subst replace.simps) simp

lemma replace_nomatch:
  "old \<noteq> [] \<Longrightarrow> \<not> prefix old (c # cs) \<Longrightarrow> replace old new (c # cs) = c # replace old new cs"
  by (subst replace.simps) simp

lemma replace_induct [consumes 1, case_names Nil match nomatch]:
  assumes "old \<noteq> []" and "P []"
    and "\<And>t. P t \<Longrightarrow> P (old @ t)"
    and "\<And>c cs. \<not> prefix old (c # cs) \<Longrightarrow> P cs \<Longrightarrow> P (c # cs)"
  shows "P s"
proof (induction s rule: length_induct)
  case (1 s)
  show ?case
  proof (cases "prefix old s")
    case True
    then obtain t where s: "s = old @ t"
      by (auto simp only: prefix_def)
    with assms(1) have "length t < length s" by simp
    with 1 have "P t" by blast
    with s assms(3) show ?thesis by blast
  next
    case False
    show ?thesis
    proof (cases s)
      case Nil
      with assms(2) show ?thesis by simp
    next
      case (Cons c cs)
      then have "length cs < length s" by simp
      with 1 have "P cs" by blast
      with Cons False assms(4) show ?thesis by blast
    qed
  qed
qed

lemma replace_append_Cons:
  assumes "old \<noteq> []" and "c \<notin> set old"
  shows "replace old new (s @ c # t) = replace old new s @ c # replace old new t"
  using assms(1)
proof (induction s rule: replace_induct)
  case Nil
  from assms have "\<not> prefix old (c # t)" by (cases old) auto
  with assms(1) show ?case by (simp add: replace_Nil replace_nomatch)
next
  case (match u)
  with assms(1) show ?case by (simp add: replace_match)
next
  case (nomatch a cs)
  have "\<not> prefix old (a # cs @ c # t)"
  proof
    assume "prefix old (a # cs @ c # t)"
    then have "prefix old ((a # cs) @ c # t)" by simp
    then consider "prefix old (a # cs)"
      | us where "old = (a # cs) @ us" "prefix us (c # t)"
      unfolding prefix_append by blast
    then show False
    proof cases
      case 1
      with nomatch.hyps show ?thesis by contradiction
    next
      case 2
      show ?thesis
      proof (cases us)
        case Nil
        with 2 have "prefix old (a # cs)" by simp
        with nomatch.hyps show ?thesis by contradiction
      next
        case (Cons d ds)
        with 2 have "d = c" by simp
        with Cons 2(1) have "c \<in> set old" by simp
        with assms(2) show ?thesis by contradiction
      qed
    qed
  qed
  with assms(1) nomatch show ?case by (simp add: replace_nomatch)
qed

lemma set_replace:
  assumes "old \<noteq> []"
  shows "set (replace old new s) \<subseteq> set s \<union> set new"
  using assms
proof (induction s rule: replace_induct)
  case Nil
  with assms show ?case by (simp add: replace_Nil)
next
  case (match t)
  with assms show ?case by (auto simp: replace_match)
next
  case (nomatch c cs)
  with assms show ?case by (auto simp: replace_nomatch)
qed

lemma replace_eq_Nil:
  assumes "old \<noteq> []" and "new \<noteq> []"
  shows "replace old new s = [] \<longleftrightarrow> s = []"
  using assms(1)
proof (induction s rule: replace_induct)
  case Nil
  with assms show ?case by (simp add: replace_Nil)
next
  case (match t)
  with assms show ?case by (simp add: replace_match)
next
  case (nomatch c cs)
  with assms show ?case by (simp add: replace_nomatch)
qed

subsection \<open>The replacement of \<open>vvlgrey\<close> by \<open>red\<close>\<close>

lemma recolour_Nil: "recolour [] = []"
  by (rule replace_Nil) simp

lemma recolour_match: "recolour (''vvlgrey'' @ t) = ''red'' @ recolour t"
  by (rule replace_match) simp

lemma recolour_nomatch: "\<not> prefix ''vvlgrey'' (c # cs) \<Longrightarrow> recolour (c # cs) = c # recolour cs"
  by (rule replace_nomatch) simp_all

lemma recolour_induct [case_names Nil match nomatch]:
  assumes "P []"
    and "\<And>t. P t \<Longrightarrow> P (''vvlgrey'' @ t)"
    and "\<And>c cs. \<not> prefix ''vvlgrey'' (c # cs) \<Longrightarrow> P cs \<Longrightarrow> P (c # cs)"
  shows "P s"
proof -
  have "''vvlgrey'' \<noteq> []" by simp
  then show ?thesis
    by (induction s rule: replace_induct) (fact assms)+
qed

lemma prefix_recolourD:
  assumes "prefix u (recolour s)" and "u \<noteq> []"
    and "CHR ''d'' \<notin> set u" and "last u \<noteq> CHR ''r''" and "last u \<noteq> CHR ''e''"
  shows "prefix u s"
  using assms
proof (induction s arbitrary: u rule: recolour_induct)
  case Nil
  then show ?case by (simp add: recolour_Nil)
next
  case (match t)
  from match.prems(1) have p: "prefix u (CHR ''r'' # CHR ''e'' # CHR ''d'' # recolour t)"
    using recolour_match [of t] by simp
  with match.prems(2) obtain u1 where u1: "u = CHR ''r'' # u1" "prefix u1 (CHR ''e'' # CHR ''d'' # recolour t)"
    by (auto simp: prefix_Cons)
  with match.prems(4) have "u1 \<noteq> []" by auto
  with u1 obtain u2 where u2: "u1 = CHR ''e'' # u2" "prefix u2 (CHR ''d'' # recolour t)"
    by (auto simp: prefix_Cons)
  with u1 match.prems(5) have "u2 \<noteq> []" by auto
  with u2 obtain u3 where "u2 = CHR ''d'' # u3"
    by (auto simp: prefix_Cons)
  with u1 u2 match.prems(3) have False by simp
  then show ?case ..
next
  case (nomatch c cs)
  from nomatch.prems(1) have "prefix u (c # recolour cs)"
    by (simp only: recolour_nomatch [OF nomatch.hyps])
  with nomatch.prems(2) obtain u' where u: "u = c # u'" and p: "prefix u' (recolour cs)"
    by (auto simp: prefix_Cons)
  show ?case
  proof (cases "u' = []")
    case True
    with u show ?thesis by simp
  next
    case False
    with u nomatch.prems have "CHR ''d'' \<notin> set u'" "last u' \<noteq> CHR ''r''" "last u' \<noteq> CHR ''e''"
      by simp_all
    with p False have "prefix u' cs" by (rule nomatch.IH)
    with u show ?thesis by simp
  qed
qed

lemma not_prefix_recolour:
  assumes "\<not> prefix ''vvlgrey'' (c # cs)"
  shows "\<not> prefix ''vvlgrey'' (c # recolour cs)"
proof
  assume a: "prefix ''vvlgrey'' (c # recolour cs)"
  from a [unfolded Cons_prefix_Cons]
  have c: "c = CHR ''v''" and p: "prefix ''vlgrey'' (recolour cs)" by blast+
  from p have "prefix ''vlgrey'' cs" by (rule prefix_recolourD) simp_all
  with c have "prefix ''vvlgrey'' (c # cs)" by simp
  with assms show False by contradiction
qed

lemma recolour_idem: "recolour (recolour s) = recolour s"
proof (induction s rule: recolour_induct)
  case Nil
  then show ?case by (simp add: recolour_Nil)
next
  case (match t)
  have "recolour (''red'' @ recolour t) = ''red'' @ recolour (recolour t)"
    by (simp add: recolour_nomatch)
  with match show ?case by (simp only: recolour_match)
next
  case (nomatch c cs)
  from nomatch.hyps have "\<not> prefix ''vvlgrey'' (c # recolour cs)"
    by (rule not_prefix_recolour)
  then have "recolour (c # recolour cs) = c # recolour (recolour cs)"
    by (rule recolour_nomatch)
  moreover have "recolour (c # cs) = c # recolour cs"
    using nomatch.hyps by (rule recolour_nomatch)
  ultimately show ?case using nomatch.IH by simp
qed

lemma not_sublist_recolour: "\<not> sublist ''vvlgrey'' (recolour s)"
proof (induction s rule: recolour_induct)
  case Nil
  then show ?case by (simp add: recolour_Nil)
next
  case (match t)
  have "recolour (''vvlgrey'' @ t) = CHR ''r'' # CHR ''e'' # CHR ''d'' # recolour t"
    using recolour_match [of t] by simp
  with match show ?case by (simp add: sublist_Cons_right)
next
  case (nomatch c cs)
  from nomatch.hyps have "\<not> prefix ''vvlgrey'' (c # recolour cs)"
    by (rule not_prefix_recolour)
  with nomatch.IH have "\<not> sublist ''vvlgrey'' (c # recolour cs)"
    unfolding sublist_Cons_right [of _ c] by blast
  then show ?case unfolding recolour_nomatch [OF nomatch.hyps] .
qed

lemma join_Cons: "ps \<noteq> [] \<Longrightarrow> join sep (p # ps) = p @ sep @ join sep ps"
  by (cases ps) simp_all

lemma prefix_join: "prefix p (join sep (p # ps))"
  by (cases ps) simp_all

lemma recolour_pieces:
  "\<exists>pieces. pieces \<noteq> [] \<and> s = join ''vvlgrey'' pieces \<and> recolour s = join ''red'' pieces
     \<and> (\<forall>p\<in>set pieces. \<not> sublist ''vvlgrey'' p)"
proof (induction s rule: recolour_induct)
  case Nil
  have "[[]] \<noteq> [] \<and> [] = join ''vvlgrey'' [[]] \<and> recolour [] = join ''red'' [[]]
     \<and> (\<forall>p\<in>set [[]]. \<not> sublist ''vvlgrey'' p)"
    by (simp add: recolour_Nil)
  then show ?case by blast
next
  case (match t)
  then obtain ps where ps: "ps \<noteq> []" "t = join ''vvlgrey'' ps" "recolour t = join ''red'' ps"
    "\<forall>p\<in>set ps. \<not> sublist ''vvlgrey'' p" by blast
  from ps(1,2) have "''vvlgrey'' @ t = join ''vvlgrey'' ([] # ps)"
    by (simp add: join_Cons [OF ps(1)])
  moreover from ps(1,3) have "recolour (''vvlgrey'' @ t) = join ''red'' ([] # ps)"
    using recolour_match [of t] by (simp add: join_Cons [OF ps(1)])
  moreover from ps(4) have "\<forall>p\<in>set ([] # ps). \<not> sublist ''vvlgrey'' p" by simp
  ultimately show ?case by blast
next
  case (nomatch c cs)
  then obtain ps where ps: "ps \<noteq> []" "cs = join ''vvlgrey'' ps" "recolour cs = join ''red'' ps"
    "\<forall>p\<in>set ps. \<not> sublist ''vvlgrey'' p" by blast
  from ps(1) obtain p ps' where pp: "ps = p # ps'" by (cases ps) auto
  have j: "join sep ((c # p) # ps') = c # join sep (p # ps')" for sep
    by (cases ps') simp_all
  from ps(2) pp have "prefix (c # p) (c # cs)" by (simp add: prefix_join)
  with nomatch.hyps have "\<not> prefix ''vvlgrey'' (c # p)"
    using prefix_order.trans by blast
  moreover from ps(4) pp have "\<not> sublist ''vvlgrey'' p" by simp
  ultimately have "\<not> sublist ''vvlgrey'' (c # p)"
    unfolding sublist_Cons_right [of _ c] by blast
  with ps(4) pp have "\<forall>q\<in>set ((c # p) # ps'). \<not> sublist ''vvlgrey'' q" by simp
  moreover from ps(2) pp have "c # cs = join ''vvlgrey'' ((c # p) # ps')" by (simp only: j)
  moreover from ps(3) pp have "recolour (c # cs) = join ''red'' ((c # p) # ps')"
    by (simp only: j recolour_nomatch [OF nomatch.hyps])
  ultimately show ?case by blast
qed

subsection \<open>Whitespace and fields\<close>

lemma isspace_LF: "isspace LF"
  by (simp add: isspace_def)

lemma not_isspace_vvlgrey: "c \<in> set ''vvlgrey'' \<Longrightarrow> \<not> isspace c"
  by (auto simp: isspace_def)

lemma not_isspace_red: "c \<in> set ''red'' \<Longrightarrow> \<not> isspace c"
  by (auto simp: isspace_def)

lemma dropWhile_append_stop:
  "(\<And>y. y \<in> set ys \<Longrightarrow> \<not> P y) \<Longrightarrow> dropWhile P (xs @ ys) = dropWhile P xs @ ys"
proof (induction xs)
  case Nil
  then show ?case by (cases ys) simp_all
next
  case (Cons x xs)
  then show ?case by simp
qed

lemma takeWhile_append_stop:
  "(\<And>y. y \<in> set ys \<Longrightarrow> \<not> P y) \<Longrightarrow> takeWhile P (xs @ ys) = takeWhile P xs"
proof (induction xs)
  case Nil
  then show ?case by (cases ys) simp_all
next
  case (Cons x xs)
  then show ?case by simp
qed

lemma split_spaces: "(\<And>c. c \<in> set ws \<Longrightarrow> isspace c) \<Longrightarrow> split ws = []"
  by (induction ws) simp_all

lemma split_append_spaces:
  assumes "\<And>c. c \<in> set ws \<Longrightarrow> isspace c"
  shows "split (s @ ws) = split s"
proof (induction s rule: split.induct)
  case 1
  from assms show ?case by (simp add: split_spaces)
next
  case (2 c cs)
  show ?case
  proof (cases "isspace c")
    case True
    with 2 show ?thesis by simp
  next
    case False
    have "takeWhile (\<lambda>x. \<not> isspace x) (cs @ ws) = takeWhile (\<lambda>x. \<not> isspace x) cs"
      by (rule takeWhile_append_stop) (simp add: assms)
    moreover have "dropWhile (\<lambda>x. \<not> isspace x) (cs @ ws) = dropWhile (\<lambda>x. \<not> isspace x) cs @ ws"
      by (rule dropWhile_append_stop) (simp add: assms)
    ultimately show ?thesis using False 2(2) by simp
  qed
qed

lemma rstrip_decomp: "\<exists>ws. s = rstrip s @ ws \<and> (\<forall>c\<in>set ws. isspace c)"
proof -
  have "rev s = takeWhile isspace (rev s) @ dropWhile isspace (rev s)" by simp
  then have "s = rev (dropWhile isspace (rev s)) @ rev (takeWhile isspace (rev s))"
    by (metis rev_append rev_rev_ident)
  moreover have "\<forall>c\<in>set (rev (takeWhile isspace (rev s))). isspace c"
    by (auto dest: set_takeWhileD)
  ultimately show ?thesis unfolding rstrip_def by blast
qed

lemma parts_eq_split: "parts s = split s"
proof -
  from rstrip_decomp obtain ws where "s = rstrip s @ ws" and "\<forall>c\<in>set ws. isspace c" by blast
  then have "split s = split (rstrip s)"
    by (metis split_append_spaces)
  then show ?thesis by (simp add: parts_def)
qed

lemma split_fields: "f \<in> set (split s) \<Longrightarrow> f \<noteq> [] \<and> (\<forall>c\<in>set f. \<not> isspace c)"
proof (induction s rule: split.induct)
  case 1
  then show ?case by simp
next
  case (2 c cs)
  show ?case
  proof (cases "isspace c")
    case True
    with 2 show ?thesis by simp
  next
    case False
    with 2(3) consider "f = c # takeWhile (\<lambda>x. \<not> isspace x) cs"
      | "f \<in> set (split (dropWhile (\<lambda>x. \<not> isspace x) cs))"
      by auto
    then show ?thesis
    proof cases
      case 1
      with False show ?thesis by (auto dest: set_takeWhileD)
    next
      case 2
      then show ?thesis by (rule "2.IH"(2) [OF False])
    qed
  qed
qed

lemma split_field_append:
  assumes "f \<noteq> []" and "\<And>c. c \<in> set f \<Longrightarrow> \<not> isspace c" and "rest = [] \<or> isspace (hd rest)"
  shows "split (f @ rest) = f # split rest"
proof -
  from assms(1) obtain c cs where f: "f = c # cs" by (cases f) auto
  have tw: "takeWhile (\<lambda>x. \<not> isspace x) (cs @ rest) = cs"
    using assms(2,3) f by (cases rest) auto
  have dw: "dropWhile (\<lambda>x. \<not> isspace x) (cs @ rest) = rest"
    using assms(2,3) f by (cases rest) auto
  from f assms(2) have "\<not> isspace c" by simp
  with f tw dw show ?thesis by simp
qed

lemma not_isspace_recolour:
  assumes "\<And>c. c \<in> set f \<Longrightarrow> \<not> isspace c" and "c \<in> set (recolour f)"
  shows "\<not> isspace c"
proof -
  have "set (recolour f) \<subseteq> set f \<union> set ''red''"
    by (rule set_replace) simp
  with assms(2) have "c \<in> set f \<or> c \<in> set ''red''" by blast
  with assms(1) not_isspace_red show ?thesis by blast
qed

lemma recolour_space_Cons: "isspace c \<Longrightarrow> recolour (c # cs) = c # recolour cs"
proof (rule recolour_nomatch)
  assume "isspace c"
  with not_isspace_vvlgrey have "c \<notin> set ''vvlgrey''" by blast
  then have "c \<noteq> CHR ''v''" by auto
  then show "\<not> prefix ''vvlgrey'' (c # cs)" by auto
qed

lemma recolour_append_space:
  "isspace c \<Longrightarrow> recolour (s @ c # t) = recolour s @ c # recolour t"
proof (rule replace_append_Cons)
  assume "isspace c"
  with not_isspace_vvlgrey show "c \<notin> set ''vvlgrey''" by blast
qed simp

lemma split_recolour: "split (recolour s) = map recolour (split s)"
proof (induction s rule: split.induct)
  case 1
  then show ?case by (simp add: recolour_Nil)
next
  case (2 c cs)
  show ?case
  proof (cases "isspace c")
    case True
    with 2 show ?thesis by (simp add: recolour_space_Cons)
  next
    case False
    define f where "f = takeWhile (\<lambda>x. \<not> isspace x) (c # cs)"
    define rest where "rest = dropWhile (\<lambda>x. \<not> isspace x) cs"
    from False have s: "c # cs = f @ rest"
      by (simp add: f_def rest_def)
    from False have f: "f \<noteq> []" "\<And>x. x \<in> set f \<Longrightarrow> \<not> isspace x"
      by (auto simp: f_def dest: set_takeWhileD)
    have rest: "rest = [] \<or> isspace (hd rest)"
      unfolding rest_def using hd_dropWhile [of "\<lambda>x. \<not> isspace x" cs] by auto
    from f(1) have rf1: "recolour f \<noteq> []"
      by (simp add: replace_eq_Nil)
    have rf2: "\<And>x. x \<in> set (recolour f) \<Longrightarrow> \<not> isspace x"
      using f(2) not_isspace_recolour by blast
    note rf = rf1 rf2
    from False have IH: "split (recolour rest) = map recolour (split rest)"
      unfolding rest_def by (rule "2.IH"(2))
    from False have sp: "split (c # cs) = f # split rest"
      by (simp add: f_def rest_def)
    show ?thesis
    proof (cases rest)
      case Nil
      with s have "recolour (c # cs) = recolour f @ []" by simp
      moreover have "split (recolour f @ []) = recolour f # split []"
        by (rule split_field_append) (simp_all add: rf)
      ultimately show ?thesis using sp Nil by simp
    next
      case (Cons w ws)
      with rest have w: "isspace w" by simp
      with s Cons have "recolour (c # cs) = recolour f @ (w # recolour ws)"
        by (simp add: recolour_append_space)
      moreover have "split (recolour f @ (w # recolour ws)) = recolour f # split (w # recolour ws)"
        by (rule split_field_append) (simp_all add: rf w)
      moreover have "recolour rest = w # recolour ws"
        using w Cons by (simp add: recolour_space_Cons)
      ultimately show ?thesis using sp IH by simp
    qed
  qed
qed

lemma parts_recolour: "parts (recolour s) = map recolour (parts s)"
  by (simp add: parts_eq_split split_recolour)

subsection \<open>The lines of a text file\<close>

lemma terminated_iff: "terminated l \<longleftrightarrow> (\<exists>b. l = b @ [LF] \<and> LF \<notin> set b)"
proof
  assume "terminated l"
  then have "l = butlast l @ [LF]" and "LF \<notin> set (butlast l)"
    unfolding terminated_def by (metis append_butlast_last_id, blast)
  then show "\<exists>b. l = b @ [LF] \<and> LF \<notin> set b" by blast
next
  assume "\<exists>b. l = b @ [LF] \<and> LF \<notin> set b"
  then show "terminated l" unfolding terminated_def by auto
qed

lemma keepends_unterminated: "unterminated b \<Longrightarrow> keepends b = [b]"
  unfolding unterminated_def
proof (induction b)
  case Nil
  then show ?case by simp
next
  case (Cons c b)
  then show ?case by (cases b) auto
qed

lemma keepends_line:
  "LF \<notin> set b \<Longrightarrow> keepends (b @ LF # rest) = (b @ [LF]) # keepends rest"
  by (induction b) auto

lemma keepends_terminated: "terminated l \<Longrightarrow> keepends (l @ rest) = l # keepends rest"
  unfolding terminated_iff using keepends_line by auto

lemma keepends_concat: "well_formed ls \<Longrightarrow> keepends (concat ls) = ls"
proof (induction ls rule: well_formed.induct)
  case 1
  then show ?case by simp
next
  case (2 l)
  then show ?case
    using keepends_terminated [of l "[]"] keepends_unterminated [of l] by auto
next
  case (3 l v va)
  then show ?case by (simp add: keepends_terminated)
qed

lemma concat_keepends: "concat (keepends s) = s"
  by (induction s) (auto split: list.splits)

lemma well_formed_keepends: "well_formed (keepends s)"
proof (induction s)
  case Nil
  then show ?case by simp
next
  case (Cons c s)
  show ?case
  proof (cases "c = LF")
    case True
    have "terminated [LF]" by (simp add: terminated_def)
    with True Cons show ?thesis by (cases "keepends s") simp_all
  next
    case False
    show ?thesis
    proof (cases "keepends s")
      case Nil
      with False show ?thesis by (simp add: unterminated_def)
    next
      case (Cons l ls)
      from False have t: "terminated l \<Longrightarrow> terminated (c # l)"
        unfolding terminated_def by auto
      from False have u: "unterminated l \<Longrightarrow> unterminated (c # l)"
        unfolding unterminated_def by auto
      from Cons Cons.IH False t u show ?thesis by (cases ls) auto
    qed
  qed
qed

lemma universal_newlines_no_CR: "CR \<notin> set (universal_newlines s)"
  by (induction s rule: universal_newlines.induct) (auto split: list.splits)

lemma universal_newlines_id: "CR \<notin> set s \<Longrightarrow> universal_newlines s = s"
  by (induction s rule: universal_newlines.induct) (auto split: list.splits)

lemma well_formed_file_lines: "well_formed (file_lines content)"
  by (simp add: file_lines_def well_formed_keepends)

lemma file_lines_no_CR: "l \<in> set (file_lines content) \<Longrightarrow> CR \<notin> set l"
proof -
  assume "l \<in> set (file_lines content)"
  then have "set l \<subseteq> set (concat (file_lines content))" by auto
  also have "\<dots> = set (universal_newlines content)"
    by (simp only: file_lines_def concat_keepends)
  finally show ?thesis using universal_newlines_no_CR by blast
qed

lemma file_lines_concat:
  assumes "well_formed ls" and "\<And>l. l \<in> set ls \<Longrightarrow> CR \<notin> set l"
  shows "file_lines (concat ls) = ls"
proof -
  from assms(2) have "CR \<notin> set (concat ls)" by auto
  then have "universal_newlines (concat ls) = concat ls" by (rule universal_newlines_id)
  with assms(1) show ?thesis by (simp add: file_lines_def keepends_concat)
qed

lemma terminated_recolour: "terminated l \<Longrightarrow> terminated (recolour l)"
proof -
  assume "terminated l"
  then obtain b where l: "l = b @ [LF]" and b: "LF \<notin> set b"
    unfolding terminated_iff by blast
  have "set (recolour b) \<subseteq> set b \<union> set ''red''" by (rule set_replace) simp
  with b have "LF \<notin> set (recolour b)" by auto
  moreover from l have "recolour l = recolour b @ [LF]"
    by (simp add: recolour_append_space isspace_LF recolour_Nil)
  ultimately show ?thesis unfolding terminated_iff by blast
qed

lemma unterminated_recolour: "unterminated l \<Longrightarrow> unterminated (recolour l)"
proof -
  assume "unterminated l"
  then have l: "l \<noteq> []" "LF \<notin> set l" unfolding unterminated_def by auto
  have "set (recolour l) \<subseteq> set l \<union> set ''red''" by (rule set_replace) simp
  with l(2) have "LF \<notin> set (recolour l)" by auto
  with l(1) show ?thesis unfolding unterminated_def by (simp add: replace_eq_Nil)
qed

lemma no_CR_recolour: "CR \<notin> set l \<Longrightarrow> CR \<notin> set (recolour l)"
proof -
  assume "CR \<notin> set l"
  moreover have "set (recolour l) \<subseteq> set l \<union> set ''red''" by (rule set_replace) simp
  ultimately show ?thesis by auto
qed

lemma well_formed_recoloured:
  "well_formed ls \<Longrightarrow> list_all2 (\<lambda>l w. w = l \<or> w = recolour l) ls ws \<Longrightarrow> well_formed ws"
proof (induction ls arbitrary: ws rule: well_formed.induct)
  case 1
  then show ?case by simp
next
  case (2 l)
  then show ?case
    by (auto simp: list_all2_Cons1 terminated_recolour unterminated_recolour)
next
  case (3 l v va)
  from "3.prems"(2) obtain w ws' where ws: "ws = w # ws'" "w = l \<or> w = recolour l"
    "list_all2 (\<lambda>l w. w = l \<or> w = recolour l) (v # va) ws'"
    by (auto simp: list_all2_Cons1)
  from "3.prems"(1) have "terminated l" "well_formed (v # va)" by simp_all
  with ws "3.IH" have "terminated w" "well_formed ws'"
    by (auto simp: terminated_recolour)
  moreover from ws(3) obtain x xs where "ws' = x # xs" by (auto simp: list_all2_Cons1)
  ultimately show ?case using ws(1) by simp
qed

subsection \<open>The loop and the script\<close>

lemma process_line_ok:
  "4 \<le> length (parts line) \<Longrightarrow> process_line tigs line = Inr (out_line tigs line)"
  by (simp add: process_line_def)

lemma process_line_short:
  "length (parts line) < 4 \<Longrightarrow> process_line tigs line = Inl IndexError"
  by (simp add: process_line_def)

lemma loop_complete:
  "(\<And>l. l \<in> set lines \<Longrightarrow> 4 \<le> length (parts l)) \<Longrightarrow>
   loop tigs lines written = (None, written @ map (out_line tigs) lines)"
proof (induction lines arbitrary: written)
  case Nil
  then show ?case by simp
next
  case (Cons l lines)
  then have "process_line tigs l = Inr (out_line tigs l)"
    by (simp add: process_line_ok)
  moreover from Cons have "loop tigs lines (written @ [out_line tigs l]) =
      (None, (written @ [out_line tigs l]) @ map (out_line tigs) lines)"
    by simp
  ultimately show ?case by simp
qed

lemma loop_abort:
  "(\<And>l. l \<in> set pre \<Longrightarrow> 4 \<le> length (parts l)) \<Longrightarrow> length (parts bad) < 4 \<Longrightarrow>
   loop tigs (pre @ bad # post) written = (Some IndexError, written @ map (out_line tigs) pre)"
proof (induction pre arbitrary: written)
  case Nil
  then show ?case by (simp add: process_line_short)
next
  case (Cons l pre)
  then have "process_line tigs l = Inr (out_line tigs l)"
    by (simp add: process_line_ok)
  moreover from Cons have "loop tigs (pre @ bad # post) (written @ [out_line tigs l]) =
      (Some IndexError, (written @ [out_line tigs l]) @ map (out_line tigs) pre)"
    by simp
  ultimately show ?case by simp
qed

lemma main_opened:
  assumes "asm_karyotype fs = Some fin" and "asm_karyotype2_writable fs"
    and "good_contigs fs = Some fin2"
    and "loop (map rstrip (file_lines fin2)) (file_lines fin) [] = (err, written)"
  shows "main fs = (err, fs\<lparr>asm_karyotype2 := Some (concat written)\<rparr>)"
  using assms by (simp add: main_def)

lemma process_line_set_cong: "set tigs = set tigs' \<Longrightarrow> process_line tigs line = process_line tigs' line"
  by (simp add: process_line_def)

lemma loop_set_cong: "set tigs = set tigs' \<Longrightarrow> loop tigs lines written = loop tigs' lines written"
proof (induction lines arbitrary: written)
  case Nil
  then show ?case by simp
next
  case (Cons l lines)
  then show ?case
    by (simp add: process_line_set_cong [of tigs tigs'] split: sum.splits)
qed

lemma written_well_formed:
  "well_formed (map (out_line tigs) (file_lines content))"
proof (rule well_formed_recoloured)
  show "well_formed (file_lines content)" by (rule well_formed_file_lines)
  show "list_all2 (\<lambda>l w. w = l \<or> w = recolour l) (file_lines content)
      (map (out_line tigs) (file_lines content))"
    by (simp add: list_all2_conv_all_nth)
qed

lemma written_no_CR:
  assumes "w \<in> set (map (out_line tigs) (file_lines content))"
  shows "CR \<notin> set w"
proof -
  from assms obtain l where "l \<in> set (file_lines content)" and "w = l \<or> w = recolour l"
    by auto
  then show ?thesis using file_lines_no_CR no_CR_recolour by blast
qed

lemma rstrip_no_trailing_space: "rstrip l \<noteq> [] \<Longrightarrow> \<not> isspace (last (rstrip l))"
proof -
  assume "rstrip l \<noteq> []"
  then have ne: "dropWhile isspace (rev l) \<noteq> []" by (simp add: rstrip_def)
  then have "\<not> isspace (hd (dropWhile isspace (rev l)))" by (rule hd_dropWhile)
  with ne show ?thesis by (simp add: rstrip_def last_rev)
qed

lemma rstrip_id: "s = [] \<or> \<not> isspace (last s) \<Longrightarrow> rstrip s = s"
  by (cases s rule: rev_cases) (auto simp: rstrip_def)

lemma rstrip_append_space: "isspace c \<Longrightarrow> rstrip (s @ [c]) = rstrip s"
  by (simp add: rstrip_def)

lemma rstrip_strip_newline: "rstrip (strip_newline l) = rstrip l"
proof (cases "l \<noteq> [] \<and> last l = LF")
  case True
  then have "l = butlast l @ [LF]" by (metis append_butlast_last_id)
  then have "rstrip l = rstrip (butlast l)"
    using rstrip_append_space [OF isspace_LF, of "butlast l"] by simp
  with True show ?thesis by (simp add: strip_newline_def)
next
  case False
  then show ?thesis by (auto simp: strip_newline_def)
qed

subsection \<open>Stored lines and lines as read\<close>

lemma raw_lines_cases [case_names Nil LF CR CRLF CR_other other]:
  assumes "P []"
    and "\<And>cs. P cs \<Longrightarrow> P (LF # cs)"
    and "P [CR]"
    and "\<And>ds. P ds \<Longrightarrow> P (CR # LF # ds)"
    and "\<And>d ds. d \<noteq> LF \<Longrightarrow> P (d # ds) \<Longrightarrow> P (CR # d # ds)"
    and "\<And>c cs. c \<noteq> LF \<Longrightarrow> c \<noteq> CR \<Longrightarrow> P cs \<Longrightarrow> P (c # cs)"
  shows "P s"
proof (induction s rule: length_induct)
  case (1 s)
  show ?case
  proof (cases s)
    case Nil
    with assms(1) show ?thesis by simp
  next
    case (Cons c cs)
    with 1 have cs: "P cs" by simp
    show ?thesis
    proof (cases "c = LF")
      case True
      with Cons cs assms(2) show ?thesis by simp
    next
      case nLF: False
      show ?thesis
      proof (cases "c = CR")
        case False
        with nLF Cons cs assms(6) show ?thesis by simp
      next
        case True
        show ?thesis
        proof (cases cs)
          case Nil
          with True Cons assms(3) show ?thesis by simp
        next
          case c2: (Cons d ds)
          with Cons 1 have ds: "P ds" by simp
          show ?thesis
          proof (cases "d = LF")
            case True
            with \<open>c = CR\<close> Cons c2 ds assms(4) show ?thesis by simp
          next
            case False
            with \<open>c = CR\<close> Cons c2 cs assms(5) show ?thesis by simp
          qed
        qed
      qed
    qed
  qed
qed

lemma concat_raw_lines: "concat (raw_lines s) = s"
proof (induction s rule: raw_lines_cases)
  case (other c cs)
  then show ?case by (cases "raw_lines cs") simp_all
qed simp_all

lemma file_lines_raw_lines: "file_lines s = map universal_newlines (raw_lines s)"
  unfolding file_lines_def
proof (induction s rule: raw_lines_cases)
  case (other c cs)
  then show ?case by (cases "raw_lines cs") simp_all
qed simp_all


lemma universal_newlines_body:
  "CR \<notin> set b \<Longrightarrow> universal_newlines (b @ t) = b @ universal_newlines t"
  by (induction b) auto

lemma raw_line_shape:
  "l \<in> set (raw_lines s) \<Longrightarrow>
   \<exists>body. CR \<notin> set body \<and> LF \<notin> set body
     \<and> (l = body \<or> l = body @ [LF] \<or> l = body @ [CR] \<or> l = body @ [CR, LF])"
proof (induction s arbitrary: l rule: raw_lines_cases)
  case Nil
  then show ?case by simp
next
  case (LF cs)
  from LF.prems have "l = [] @ [LF] \<or> l \<in> set (raw_lines cs)" by simp
  with LF.IH show ?case by (metis empty_iff empty_set)
next
  case CR
  then have "l = [] @ [CR]" by simp
  then show ?case by (metis empty_iff empty_set)
next
  case (CRLF ds)
  from CRLF.prems have "l = [] @ [CR, LF] \<or> l \<in> set (raw_lines ds)" by simp
  with CRLF.IH show ?case by (metis empty_iff empty_set)
next
  case (CR_other d ds)
  from CR_other.prems CR_other.hyps have "l = [] @ [CR] \<or> l \<in> set (raw_lines (d # ds))"
    by simp
  with CR_other.IH show ?case by (metis empty_iff empty_set)
next
  case (other c cs)
  show ?case
  proof (cases "raw_lines cs")
    case Nil
    with other have "l = [c]" by simp
    with other.hyps have "CR \<notin> set [c] \<and> LF \<notin> set [c] \<and> l = [c]" by simp
    then show ?thesis by blast
  next
    case (Cons x xs)
    with other consider "l = c # x" | "l \<in> set (raw_lines cs)" by auto
    then show ?thesis
    proof cases
      case 1
      from Cons have "x \<in> set (raw_lines cs)" by simp
      with other.IH obtain body where b: "CR \<notin> set body" "LF \<notin> set body"
        "x = body \<or> x = body @ [LF] \<or> x = body @ [CR] \<or> x = body @ [CR, LF]"
        by blast
      from b(1,2) other.hyps have "CR \<notin> set (c # body)" "LF \<notin> set (c # body)" by auto
      moreover from 1 b(3) have "l = (c # body) \<or> l = (c # body) @ [LF]
          \<or> l = (c # body) @ [CR] \<or> l = (c # body) @ [CR, LF]" by auto
      ultimately show ?thesis by blast
    next
      case 2
      with other.IH show ?thesis by blast
    qed
  qed
qed

lemma takeWhile_universal_newlines:
  "takeWhile (\<lambda>x. \<not> isspace x) (universal_newlines s) = takeWhile (\<lambda>x. \<not> isspace x) s"
proof (induction s rule: universal_newlines.induct)
  case 1
  then show ?case by simp
next
  case (2 c cs)
  have "isspace CR" "isspace LF" by (simp_all add: isspace_def)
  with 2 show ?case by (auto split: list.splits)
qed

lemma dropWhile_universal_newlines:
  "dropWhile (\<lambda>x. \<not> isspace x) (universal_newlines s)
     = universal_newlines (dropWhile (\<lambda>x. \<not> isspace x) s)"
proof (induction s rule: universal_newlines.induct)
  case 1
  then show ?case by simp
next
  case (2 c cs)
  have "isspace CR" "isspace LF" by (simp_all add: isspace_def)
  with 2 show ?case by (auto split: list.splits)
qed

lemma split_universal_newlines: "split (universal_newlines s) = split s"
proof (induction s rule: split.induct)
  case 1
  then show ?case by simp
next
  case (2 c cs)
  have sp: "isspace CR" "isspace LF" by (simp_all add: isspace_def)
  show ?case
  proof (cases "isspace c")
    case False
    with sp have "c \<noteq> CR" by auto
    with False "2.IH"(2) show ?thesis
      by (simp add: takeWhile_universal_newlines dropWhile_universal_newlines)
  next
    case True
    with "2.IH"(1) have IH: "split (universal_newlines cs) = split cs" by simp
    show ?thesis
    proof (cases "c = CR")
      case False
      with True IH show ?thesis by simp
    next
      case CR: True
      show ?thesis
      proof (cases cs)
        case Nil
        with CR sp show ?thesis by simp
      next
        case (Cons d ds)
        show ?thesis
        proof (cases "d = LF")
          case True
          with IH Cons sp have "split (universal_newlines ds) = split ds" by simp
          with True CR Cons sp show ?thesis by simp
        next
          case False
          with CR Cons IH sp show ?thesis by simp
        qed
      qed
    qed
  qed
qed

lemma parts_universal_newlines: "parts (universal_newlines s) = parts s"
  by (simp add: parts_eq_split split_universal_newlines)


lemma loop_written:
  "snd (loop tigs lines written) =
     written @ map (out_line tigs) (takeWhile (\<lambda>l. 4 \<le> length (parts l)) lines)"
proof (induction lines arbitrary: written)
  case Nil
  then show ?case by simp
next
  case (Cons l lines)
  show ?case
  proof (cases "4 \<le> length (parts l)")
    case True
    then have "process_line tigs l = Inr (out_line tigs l)" by (rule process_line_ok)
    with True Cons [of "written @ [out_line tigs l]"] show ?thesis by simp
  next
    case False
    then have "process_line tigs l = Inl IndexError" by (simp add: process_line_short)
    with False show ?thesis by simp
  qed
qed

lemma main_output:
  assumes "asm_karyotype fs = Some fin" and "asm_karyotype2_writable fs"
    and "good_contigs fs = Some fin2"
  shows "asm_karyotype2 (snd (main fs)) =
     Some (concat (map (out_line (map rstrip (file_lines fin2)))
       (takeWhile (\<lambda>l. 4 \<le> length (parts l)) (file_lines fin))))"
proof -
  obtain err written where l: "loop (map rstrip (file_lines fin2)) (file_lines fin) [] = (err, written)"
    by (cases "loop (map rstrip (file_lines fin2)) (file_lines fin) []")
  with loop_written [of "map rstrip (file_lines fin2)" "file_lines fin" "[]"]
  have "written = map (out_line (map rstrip (file_lines fin2)))
      (takeWhile (\<lambda>l. 4 \<le> length (parts l)) (file_lines fin))"
    by simp
  with assms l show ?thesis by (simp add: main_def)
qed

lemma well_formed_prefix: "well_formed (xs @ ys) \<Longrightarrow> well_formed xs"
proof (induction xs rule: well_formed.induct)
  case 1
  then show ?case by simp
next
  case (2 l)
  then show ?case by (cases ys) simp_all
next
  case (3 l v va)
  then show ?case by simp
qed

lemma well_formed_takeWhile: "well_formed xs \<Longrightarrow> well_formed (takeWhile P xs)"
  using well_formed_prefix [of "takeWhile P xs" "dropWhile P xs"] by simp

lemma file_lines_written_prefix:
  "file_lines (concat (map (out_line tigs) (takeWhile P (file_lines content))))
     = map (out_line tigs) (takeWhile P (file_lines content))"
proof (rule file_lines_concat)
  let ?ls = "takeWhile P (file_lines content)"
  have "well_formed ?ls"
    using well_formed_file_lines by (rule well_formed_takeWhile)
  moreover have "list_all2 (\<lambda>l w. w = l \<or> w = recolour l) ?ls (map (out_line tigs) ?ls)"
    by (simp add: list_all2_conv_all_nth)
  ultimately show "well_formed (map (out_line tigs) ?ls)"
    by (rule well_formed_recoloured)
  fix w
  assume "w \<in> set (map (out_line tigs) ?ls)"
  then obtain l where "l \<in> set ?ls" and w: "w = l \<or> w = recolour l" by auto
  then have "l \<in> set (file_lines content)" by (auto dest: set_takeWhileD)
  with w show "CR \<notin> set w" using file_lines_no_CR no_CR_recolour by blast
qed

lemma universal_newlines_raw_line:
  assumes "l \<in> set (raw_lines s)"
  shows "\<exists>body. CR \<notin> set body \<and> LF \<notin> set body
     \<and> (l = body \<and> universal_newlines l = body
        \<or> (l = body @ [LF] \<or> l = body @ [CR] \<or> l = body @ [CR, LF])
          \<and> universal_newlines l = body @ [LF])"
proof -
  from raw_line_shape [OF assms] obtain body where b: "CR \<notin> set body" "LF \<notin> set body"
    "l = body \<or> l = body @ [LF] \<or> l = body @ [CR] \<or> l = body @ [CR, LF]"
    by blast
  from b(1) have "universal_newlines (body @ t) = body @ universal_newlines t" for t
    by (rule universal_newlines_body)
  from this [of "[]"] this [of "[LF]"] this [of "[CR]"] this [of "[CR, LF]"]
  have "universal_newlines body = body" "universal_newlines (body @ [LF]) = body @ [LF]"
    "universal_newlines (body @ [CR]) = body @ [LF]"
    "universal_newlines (body @ [CR, LF]) = body @ [LF]"
    by simp_all
  with b show ?thesis by metis
qed

section \<open>Properties of the script\<close>

text \<open>
  Claim C1, as the script has it. Take line \<open>k\<close> of the karyotype file, with at least
  four fields, in a run that reaches it. The script sees the line as text mode reads it:
  the stored line with a terminator \<open>\r\n\<close> or \<open>\r\<close> turned into \<open>\n\<close> and nothing
  else changed, so the stored line itself when it has no \<open>\r\<close>. Line \<open>k\<close> of the output
  file is that line with every \<open>vvlgrey\<close> replaced by \<open>red\<close> when field 3 is one of the
  contig names, and that line otherwise. The replaced line is the line cut at the
  occurrences of \<open>vvlgrey\<close>, with \<open>red\<close> between the same pieces.
\<close>

theorem written_line_of_input_line:
  assumes "asm_karyotype fs = Some fin" and "asm_karyotype2_writable fs"
    and "good_contigs fs = Some fin2"
    and "k < length (raw_lines fin)"
    and "\<forall>i\<le>k. 4 \<le> length (parts (raw_lines fin ! i))"
    and "line = universal_newlines (raw_lines fin ! k)"
  shows "(\<exists>out. asm_karyotype2 (snd (main fs)) = Some out \<and> k < length (file_lines out)
            \<and> file_lines out ! k =
                (if parts (raw_lines fin ! k) ! 3 \<in> set (map rstrip (file_lines fin2))
                 then replace ''vvlgrey'' ''red'' line else line))
         \<and> (\<exists>pieces. line = join ''vvlgrey'' pieces
                \<and> replace ''vvlgrey'' ''red'' line = join ''red'' pieces
                \<and> (\<forall>p\<in>set pieces. \<not> sublist ''vvlgrey'' p))
         \<and> (\<exists>body. CR \<notin> set body \<and> LF \<notin> set body
                \<and> (raw_lines fin ! k = body \<and> line = body
                   \<or> (raw_lines fin ! k = body @ [LF] \<or> raw_lines fin ! k = body @ [CR]
                        \<or> raw_lines fin ! k = body @ [CR, LF])
                     \<and> line = body @ [LF]))
         \<and> (CR \<notin> set (raw_lines fin ! k) \<longrightarrow> line = raw_lines fin ! k)"
proof (intro conjI impI)
  let ?ok = "\<lambda>l. 4 \<le> length (parts l)"
  let ?tigs = "map rstrip (file_lines fin2)"
  let ?written = "map (out_line ?tigs) (takeWhile ?ok (file_lines fin))"
  have fl: "file_lines fin = map universal_newlines (raw_lines fin)"
    by (rule file_lines_raw_lines)
  from assms(4) have nth: "file_lines fin ! i = universal_newlines (raw_lines fin ! i)" if "i \<le> k" for i
    using that by (simp add: fl)
  from assms(4,6) have line: "file_lines fin ! k = line" by (simp add: fl)
  have "Suc k \<le> length (takeWhile ?ok (file_lines fin))"
  proof (rule length_takeWhile_less_P_nth)
    fix i assume "i < Suc k"
    then have "i \<le> k" by simp
    with assms(5) nth show "4 \<le> length (parts (file_lines fin ! i))"
      by (simp add: parts_universal_newlines)
  next
    from assms(4) show "Suc k \<le> length (file_lines fin)" by (simp add: fl)
  qed
  then have k: "k < length (takeWhile ?ok (file_lines fin))" by simp
  then have "takeWhile ?ok (file_lines fin) ! k = line"
    using line by (simp add: takeWhile_nth)
  with k have w: "k < length ?written" "?written ! k = out_line ?tigs line" by simp_all
  from assms(1-3) have "asm_karyotype2 (snd (main fs)) = Some (concat ?written)"
    by (rule main_output)
  moreover have "file_lines (concat ?written) = ?written"
    by (rule file_lines_written_prefix)
  moreover from assms(6) have "parts line = parts (raw_lines fin ! k)"
    by (simp add: parts_universal_newlines)
  ultimately show "\<exists>out. asm_karyotype2 (snd (main fs)) = Some out \<and> k < length (file_lines out)
      \<and> file_lines out ! k =
          (if parts (raw_lines fin ! k) ! 3 \<in> set (map rstrip (file_lines fin2))
           then replace ''vvlgrey'' ''red'' line else line)"
    using w by (intro exI [of _ "concat ?written"]) simp
  from recolour_pieces [of line]
  show "\<exists>pieces. line = join ''vvlgrey'' pieces
      \<and> replace ''vvlgrey'' ''red'' line = join ''red'' pieces
      \<and> (\<forall>p\<in>set pieces. \<not> sublist ''vvlgrey'' p)"
    by blast
  from assms(4) have "raw_lines fin ! k \<in> set (raw_lines fin)" by simp
  from universal_newlines_raw_line [OF this] assms(6)
  show "\<exists>body. CR \<notin> set body \<and> LF \<notin> set body
      \<and> (raw_lines fin ! k = body \<and> line = body
         \<or> (raw_lines fin ! k = body @ [LF] \<or> raw_lines fin ! k = body @ [CR]
              \<or> raw_lines fin ! k = body @ [CR, LF])
           \<and> line = body @ [LF])"
    by simp
  assume "CR \<notin> set (raw_lines fin ! k)"
  with assms(6) show "line = raw_lines fin ! k" by (simp add: universal_newlines_id)
qed

theorem written_line_of_input_line_witness:
  "raw_lines (''chr - tig00000001 tig1 0 1000 vvlgrey'' @ [CR, LF]
              @ ''chr - tig00000002 tig2 0 1000 vvlgrey'' @ [CR, LF])
     = [''chr - tig00000001 tig1 0 1000 vvlgrey'' @ [CR, LF],
        ''chr - tig00000002 tig2 0 1000 vvlgrey'' @ [CR, LF]]
   \<and> length (parts (''chr - tig00000001 tig1 0 1000 vvlgrey'' @ [CR, LF])) = 7
   \<and> length (parts (''chr - tig00000002 tig2 0 1000 vvlgrey'' @ [CR, LF])) = 7
   \<and> asm_karyotype2 (snd (main \<lparr>asm_karyotype =
         Some (''chr - tig00000001 tig1 0 1000 vvlgrey'' @ [CR, LF]
               @ ''chr - tig00000002 tig2 0 1000 vvlgrey'' @ [CR, LF]),
         asm_karyotype2 = None, asm_karyotype2_writable = True,
         good_contigs = Some ''tig1\<newline>''\<rparr>))
       = Some ''chr - tig00000001 tig1 0 1000 red\<newline>chr - tig00000002 tig2 0 1000 vvlgrey\<newline>''
   \<and> file_lines ''chr - tig00000001 tig1 0 1000 red\<newline>chr - tig00000002 tig2 0 1000 vvlgrey\<newline>'' ! 0
       = ''chr - tig00000001 tig1 0 1000 red\<newline>''
   \<and> file_lines ''chr - tig00000001 tig1 0 1000 red\<newline>chr - tig00000002 tig2 0 1000 vvlgrey\<newline>'' ! 1
       = ''chr - tig00000002 tig2 0 1000 vvlgrey\<newline>''"
proof -
  let ?r0 = "''chr - tig00000001 tig1 0 1000 vvlgrey'' @ [CR, LF]"
  let ?r1 = "''chr - tig00000002 tig2 0 1000 vvlgrey'' @ [CR, LF]"
  let ?fin = "''chr - tig00000001 tig1 0 1000 vvlgrey'' @ [CR, LF]
      @ ''chr - tig00000002 tig2 0 1000 vvlgrey'' @ [CR, LF]"
  let ?good = "''tig1\<newline>''"
  let ?fs = "\<lparr>asm_karyotype = Some ?fin, asm_karyotype2 = None, asm_karyotype2_writable = True,
      good_contigs = Some ?good\<rparr>"
  let ?out = "''chr - tig00000001 tig1 0 1000 red\<newline>chr - tig00000002 tig2 0 1000 vvlgrey\<newline>''"
  have raw: "raw_lines ?fin = [?r0, ?r1]" by code_simp
  have p0: "length (parts ?r0) = 7" and p1: "length (parts ?r1) = 7" by code_simp+
  have f0: "parts ?r0 ! 3 = ''tig1''" and f1: "parts ?r1 ! 3 = ''tig2''" by code_simp+
  have g: "map rstrip (file_lines ?good) = [''tig1'']" by code_simp
  have u0: "universal_newlines ?r0 = ''chr - tig00000001 tig1 0 1000 vvlgrey\<newline>''"
    and u1: "universal_newlines ?r1 = ''chr - tig00000002 tig2 0 1000 vvlgrey\<newline>''"
    by code_simp+
  have r: "replace ''vvlgrey'' ''red'' ''chr - tig00000001 tig1 0 1000 vvlgrey\<newline>''
      = ''chr - tig00000001 tig1 0 1000 red\<newline>''"
    by code_simp
  have out: "asm_karyotype2 (snd (main ?fs)) = Some ?out" by code_simp
  have h1: "asm_karyotype ?fs = Some ?fin" and h2: "asm_karyotype2_writable ?fs"
    and h3: "good_contigs ?fs = Some ?good"
    by simp_all
  have k0: "0 < length (raw_lines ?fin)" and k1: "1 < length (raw_lines ?fin)"
    unfolding raw by simp_all
  from p0 have a0: "\<forall>i\<le>0. 4 \<le> length (parts (raw_lines ?fin ! i))"
    unfolding raw by simp
  from p0 p1 have a1: "\<forall>i\<le>1. 4 \<le> length (parts (raw_lines ?fin ! i))"
    unfolding raw by (simp add: le_Suc_eq)
  have e0: "raw_lines ?fin ! 0 = ?r0" and e1: "raw_lines ?fin ! 1 = ?r1"
    unfolding raw by simp_all
  from written_line_of_input_line [OF h1 h2 h3 k0 a0 refl, THEN conjunct1]
  obtain o0 where "asm_karyotype2 (snd (main ?fs)) = Some o0"
    and "file_lines o0 ! 0 =
      (if parts (raw_lines ?fin ! 0) ! 3 \<in> set (map rstrip (file_lines ?good))
       then replace ''vvlgrey'' ''red'' (universal_newlines (raw_lines ?fin ! 0))
       else universal_newlines (raw_lines ?fin ! 0))"
    by blast
  then have "Some ?out = Some o0"
    and "file_lines o0 ! 0 = (if ''tig1'' \<in> set [''tig1'']
       then ''chr - tig00000001 tig1 0 1000 red\<newline>''
       else ''chr - tig00000001 tig1 0 1000 vvlgrey\<newline>'')"
    by (simp_all only: out e0 f0 g u0 r)
  then have l0: "file_lines ?out ! 0 = ''chr - tig00000001 tig1 0 1000 red\<newline>''"
    by simp
  from written_line_of_input_line [OF h1 h2 h3 k1 a1 refl, THEN conjunct1]
  obtain o1 where "asm_karyotype2 (snd (main ?fs)) = Some o1"
    and "file_lines o1 ! 1 =
      (if parts (raw_lines ?fin ! 1) ! 3 \<in> set (map rstrip (file_lines ?good))
       then replace ''vvlgrey'' ''red'' (universal_newlines (raw_lines ?fin ! 1))
       else universal_newlines (raw_lines ?fin ! 1))"
    by blast
  then have "Some ?out = Some o1"
    and "file_lines o1 ! 1 = (if ''tig2'' \<in> set [''tig1'']
       then replace ''vvlgrey'' ''red'' ''chr - tig00000002 tig2 0 1000 vvlgrey\<newline>''
       else ''chr - tig00000002 tig2 0 1000 vvlgrey\<newline>'')"
    by (simp_all only: out e1 f1 g u1)
  then have l1: "file_lines ?out ! 1 = ''chr - tig00000002 tig2 0 1000 vvlgrey\<newline>''"
    by simp
  from raw p0 p1 out l0 l1 show ?thesis by blast
qed

text \<open>
  Claim C1 as stated fails on a line that ends with \<open>\r\n\<close>: the line is written with
  \<open>\n\<close> alone, so the line written for an unmatched line is not the input line, and the
  line written for a matched line is not the input line with only \<open>vvlgrey\<close> replaced.
\<close>

theorem crlf_terminator_not_kept:
  "raw_lines (''chr - tig00000002 tig2 0 1000 vvlgrey'' @ [CR, LF])
     = [''chr - tig00000002 tig2 0 1000 vvlgrey'' @ [CR, LF]]
   \<and> length (parts (''chr - tig00000002 tig2 0 1000 vvlgrey'' @ [CR, LF])) = 7
   \<and> main \<lparr>asm_karyotype = Some (''chr - tig00000002 tig2 0 1000 vvlgrey'' @ [CR, LF]),
        asm_karyotype2 = None, asm_karyotype2_writable = True,
        good_contigs = Some ''tig1\<newline>''\<rparr>
     = (None, \<lparr>asm_karyotype = Some (''chr - tig00000002 tig2 0 1000 vvlgrey'' @ [CR, LF]),
        asm_karyotype2 = Some ''chr - tig00000002 tig2 0 1000 vvlgrey\<newline>'',
        asm_karyotype2_writable = True, good_contigs = Some ''tig1\<newline>''\<rparr>)
   \<and> ''chr - tig00000002 tig2 0 1000 vvlgrey\<newline>''
       \<noteq> ''chr - tig00000002 tig2 0 1000 vvlgrey'' @ [CR, LF]
   \<and> main \<lparr>asm_karyotype = Some (''chr - tig00000002 tig2 0 1000 vvlgrey'' @ [CR, LF]),
        asm_karyotype2 = None, asm_karyotype2_writable = True,
        good_contigs = Some ''tig2\<newline>''\<rparr>
     = (None, \<lparr>asm_karyotype = Some (''chr - tig00000002 tig2 0 1000 vvlgrey'' @ [CR, LF]),
        asm_karyotype2 = Some ''chr - tig00000002 tig2 0 1000 red\<newline>'',
        asm_karyotype2_writable = True, good_contigs = Some ''tig2\<newline>''\<rparr>)
   \<and> replace ''vvlgrey'' ''red'' (''chr - tig00000002 tig2 0 1000 vvlgrey'' @ [CR, LF])
       = ''chr - tig00000002 tig2 0 1000 red'' @ [CR, LF]
   \<and> ''chr - tig00000002 tig2 0 1000 red\<newline>''
       \<noteq> ''chr - tig00000002 tig2 0 1000 red'' @ [CR, LF]"
  by code_simp

text \<open>
  Claim C2, as the script has it. When the three files open and every line of the
  karyotype file has at least four fields, the run ends without error, one string is
  written per stored line, in the order of the input, each of them the line as text mode
  reads it (a terminator \<open>\r\n\<close> or \<open>\r\<close> turned into \<open>\n\<close>) or that line with
  \<open>vvlgrey\<close> replaced by \<open>red\<close>; when the file has no \<open>\r\<close>, each is the stored line
  itself or the stored line with the replacement. Read back line by line, the output file
  gives exactly the strings written, so it has as many lines as the input file.
\<close>

theorem output_line_for_line:
  assumes "asm_karyotype fs = Some fin" and "asm_karyotype2_writable fs"
    and "good_contigs fs = Some fin2"
    and "\<forall>line\<in>set (raw_lines fin). 4 \<le> length (parts line)"
  shows "\<exists>written.
           main fs = (None, fs\<lparr>asm_karyotype2 := Some (concat written)\<rparr>)
         \<and> file_lines (concat written) = written
         \<and> concat (raw_lines fin) = fin
         \<and> length written = length (raw_lines fin)
         \<and> (\<forall>i<length written.
               written ! i = universal_newlines (raw_lines fin ! i)
             \<or> written ! i = replace ''vvlgrey'' ''red'' (universal_newlines (raw_lines fin ! i)))
         \<and> (CR \<notin> set fin \<longrightarrow>
              (\<forall>i<length written.
                 written ! i = raw_lines fin ! i
               \<or> written ! i = replace ''vvlgrey'' ''red'' (raw_lines fin ! i)))"
proof -
  define tigs where "tigs = map rstrip (file_lines fin2)"
  define written where "written = map (out_line tigs) (file_lines fin)"
  have fl: "file_lines fin = map universal_newlines (raw_lines fin)"
    by (rule file_lines_raw_lines)
  from assms(4) have "\<And>l. l \<in> set (file_lines fin) \<Longrightarrow> 4 \<le> length (parts l)"
    by (auto simp: fl parts_universal_newlines)
  then have "loop tigs (file_lines fin) [] = (None, [] @ written)"
    unfolding written_def by (rule loop_complete)
  with assms(1-3) have "main fs = (None, fs\<lparr>asm_karyotype2 := Some (concat written)\<rparr>)"
    unfolding tigs_def by (intro main_opened) simp_all
  moreover have "file_lines (concat written) = written"
    unfolding written_def
    by (rule file_lines_concat) (rule written_well_formed, rule written_no_CR)
  moreover have "concat (raw_lines fin) = fin" by (rule concat_raw_lines)
  moreover have len: "length written = length (raw_lines fin)"
    by (simp add: written_def fl)
  moreover have each: "\<forall>i<length written. written ! i = universal_newlines (raw_lines fin ! i)
      \<or> written ! i = recolour (universal_newlines (raw_lines fin ! i))"
    by (simp add: written_def fl)
  moreover have "\<forall>i<length written. written ! i = raw_lines fin ! i
      \<or> written ! i = recolour (raw_lines fin ! i)" if "CR \<notin> set fin"
  proof (intro allI impI)
    fix i assume i: "i < length written"
    with len have "raw_lines fin ! i \<in> set (raw_lines fin)" by simp
    then have "set (raw_lines fin ! i) \<subseteq> set (concat (raw_lines fin))" by auto
    with that have "CR \<notin> set (raw_lines fin ! i)" by (auto simp: concat_raw_lines)
    then have "universal_newlines (raw_lines fin ! i) = raw_lines fin ! i"
      by (rule universal_newlines_id)
    with each i show "written ! i = raw_lines fin ! i \<or> written ! i = recolour (raw_lines fin ! i)"
      by auto
  qed
  ultimately show ?thesis by blast
qed

theorem output_line_for_line_witness:
  "map (length \<circ> parts)
     (raw_lines (''chr - tig00000001 tig1 0 1000 vvlgrey'' @ [CR, LF]
                 @ ''chr - tig00000002 tig2 0 1000 vvlgrey'')) = [7, 7]
   \<and> fst (main \<lparr>asm_karyotype =
        Some (''chr - tig00000001 tig1 0 1000 vvlgrey'' @ [CR, LF]
              @ ''chr - tig00000002 tig2 0 1000 vvlgrey''),
        asm_karyotype2 = None, asm_karyotype2_writable = True,
        good_contigs = Some ''tig1\<newline>''\<rparr>) = None
   \<and> asm_karyotype2 (snd (main \<lparr>asm_karyotype =
        Some (''chr - tig00000001 tig1 0 1000 vvlgrey'' @ [CR, LF]
              @ ''chr - tig00000002 tig2 0 1000 vvlgrey''),
        asm_karyotype2 = None, asm_karyotype2_writable = True,
        good_contigs = Some ''tig1\<newline>''\<rparr>))
      = Some ''chr - tig00000001 tig1 0 1000 red\<newline>chr - tig00000002 tig2 0 1000 vvlgrey''"
proof -
  let ?fin = "''chr - tig00000001 tig1 0 1000 vvlgrey'' @ [CR, LF]
      @ ''chr - tig00000002 tig2 0 1000 vvlgrey''"
  let ?fs = "\<lparr>asm_karyotype = Some ?fin, asm_karyotype2 = None, asm_karyotype2_writable = True,
        good_contigs = Some ''tig1\<newline>''\<rparr>"
  have l: "raw_lines ?fin = [''chr - tig00000001 tig1 0 1000 vvlgrey'' @ [CR, LF],
      ''chr - tig00000002 tig2 0 1000 vvlgrey'']"
    by code_simp
  have p: "map (length \<circ> parts) (raw_lines ?fin) = [7, 7]"
    by code_simp
  then have h: "\<forall>line\<in>set (raw_lines ?fin). 4 \<le> length (parts line)"
    unfolding l by simp
  have "asm_karyotype ?fs = Some ?fin" "asm_karyotype2_writable ?fs"
    "good_contigs ?fs = Some ''tig1\<newline>''"
    by simp_all
  from output_line_for_line [OF this h]
  have "fst (main ?fs) = None" by auto
  moreover have "asm_karyotype2 (snd (main ?fs))
      = Some ''chr - tig00000001 tig1 0 1000 red\<newline>chr - tig00000002 tig2 0 1000 vvlgrey''"
    by code_simp
  ultimately show ?thesis using p by blast
qed

text \<open>
  Claim C2 as stated fails on a file whose lines end with a lone \<open>\r\<close>: each output
  line ends with \<open>\n\<close>, so it is neither its input line nor its input line with
  \<open>vvlgrey\<close> replaced.
\<close>

theorem cr_lines_not_written_identically:
  "raw_lines (''chr - tig00000001 tig1 0 1000 vvlgrey'' @ [CR]
              @ ''chr - tig00000002 tig2 0 1000 vvlgrey'' @ [CR])
     = [''chr - tig00000001 tig1 0 1000 vvlgrey'' @ [CR],
        ''chr - tig00000002 tig2 0 1000 vvlgrey'' @ [CR]]
   \<and> map (length \<circ> parts)
        (raw_lines (''chr - tig00000001 tig1 0 1000 vvlgrey'' @ [CR]
                    @ ''chr - tig00000002 tig2 0 1000 vvlgrey'' @ [CR])) = [7, 7]
   \<and> main \<lparr>asm_karyotype =
        Some (''chr - tig00000001 tig1 0 1000 vvlgrey'' @ [CR]
              @ ''chr - tig00000002 tig2 0 1000 vvlgrey'' @ [CR]),
        asm_karyotype2 = None, asm_karyotype2_writable = True,
        good_contigs = Some ''tig3\<newline>''\<rparr>
     = (None, \<lparr>asm_karyotype =
        Some (''chr - tig00000001 tig1 0 1000 vvlgrey'' @ [CR]
              @ ''chr - tig00000002 tig2 0 1000 vvlgrey'' @ [CR]),
        asm_karyotype2 =
          Some ''chr - tig00000001 tig1 0 1000 vvlgrey\<newline>chr - tig00000002 tig2 0 1000 vvlgrey\<newline>'',
        asm_karyotype2_writable = True, good_contigs = Some ''tig3\<newline>''\<rparr>)
   \<and> file_lines ''chr - tig00000001 tig1 0 1000 vvlgrey\<newline>chr - tig00000002 tig2 0 1000 vvlgrey\<newline>''
     = [''chr - tig00000001 tig1 0 1000 vvlgrey\<newline>'',
        ''chr - tig00000002 tig2 0 1000 vvlgrey\<newline>'']
   \<and> ''chr - tig00000001 tig1 0 1000 vvlgrey\<newline>''
       \<noteq> ''chr - tig00000001 tig1 0 1000 vvlgrey'' @ [CR]
   \<and> ''chr - tig00000001 tig1 0 1000 vvlgrey\<newline>''
       \<noteq> replace ''vvlgrey'' ''red'' (''chr - tig00000001 tig1 0 1000 vvlgrey'' @ [CR])"
  by code_simp

text \<open>
  Claim C3, as the script has it. A line is written with the replacement exactly when
  its field 3 equals a line of the contig file with all its trailing whitespace stripped:
  \<open>rstrip()\<close> removes the newline and every blank before it. A line without a field 3
  stops the run and is not written at all.
\<close>

theorem recoloured_iff_rstripped_contig:
  "process_line (map rstrip (file_lines fin2)) line =
     (if length (parts line) < 4 then Inl IndexError
      else if \<exists>g\<in>set (file_lines fin2). parts line ! 3 = rstrip g
           then Inr (replace ''vvlgrey'' ''red'' line)
           else Inr line)"
proof (cases "length (parts line) < 4")
  case True
  then show ?thesis by (simp add: process_line_short)
next
  case False
  then have "4 \<le> length (parts line)" by simp
  then have "process_line (map rstrip (file_lines fin2)) line =
      Inr (out_line (map rstrip (file_lines fin2)) line)"
    by (rule process_line_ok)
  moreover have "parts line ! 3 \<in> set (map rstrip (file_lines fin2))
      \<longleftrightarrow> (\<exists>g\<in>set (file_lines fin2). parts line ! 3 = rstrip g)"
    by auto
  ultimately show ?thesis using False by simp
qed

theorem recoloured_iff_rstripped_contig_witness:
  "length (parts ''chr - tig00000001 tig1 0 1000 vvlgrey\<newline>'') = 7
   \<and> parts ''chr - tig00000001 tig1 0 1000 vvlgrey\<newline>'' ! 3 = ''tig1''
   \<and> map rstrip (file_lines ''tig2\<newline>tig1 \<newline>'') = [''tig2'', ''tig1'']
   \<and> process_line (map rstrip (file_lines ''tig2\<newline>tig1 \<newline>''))
        ''chr - tig00000001 tig1 0 1000 vvlgrey\<newline>''
      = Inr ''chr - tig00000001 tig1 0 1000 red\<newline>''"
proof -
  let ?line = "''chr - tig00000001 tig1 0 1000 vvlgrey\<newline>''"
  let ?good = "''tig2\<newline>tig1 \<newline>''"
  have p: "length (parts ?line) = 7" by code_simp
  then have h: "4 \<le> length (parts ?line)" by simp
  have f3: "parts ?line ! 3 = ''tig1''" by code_simp
  have l: "file_lines ?good = [''tig2\<newline>'', ''tig1 \<newline>'']" by code_simp
  have g: "map rstrip (file_lines ?good) = [''tig2'', ''tig1'']" by code_simp
  have r: "replace ''vvlgrey'' ''red'' ?line = ''chr - tig00000001 tig1 0 1000 red\<newline>''"
    by code_simp
  have "\<exists>g\<in>set (file_lines ?good). parts ?line ! 3 = rstrip g"
    using g unfolding l f3 by simp
  with recoloured_iff_rstripped_contig [of ?good ?line] h
  have "process_line (map rstrip (file_lines ?good)) ?line = Inr (replace ''vvlgrey'' ''red'' ?line)"
    by simp
  with p f3 g r show ?thesis by simp
qed

text \<open>
  Claim C3 as stated fails on a contig line with a blank before its newline: the
  contig file \<open>tig1 \<close> followed by a newline recolours the line whose field 3 is
  \<open>tig1\<close>, while the contig line with only its newline stripped is \<open>tig1 \<close>, which
  is not field 3.
\<close>

theorem trailing_blank_in_contig_file_matches:
  "main \<lparr>asm_karyotype = Some ''chr - tig00000001 tig1 0 1000 vvlgrey\<newline>'',
        asm_karyotype2 = None, asm_karyotype2_writable = True,
        good_contigs = Some ''tig1 \<newline>''\<rparr>
     = (None, \<lparr>asm_karyotype = Some ''chr - tig00000001 tig1 0 1000 vvlgrey\<newline>'',
        asm_karyotype2 = Some ''chr - tig00000001 tig1 0 1000 red\<newline>'',
        asm_karyotype2_writable = True, good_contigs = Some ''tig1 \<newline>''\<rparr>)
   \<and> parts ''chr - tig00000001 tig1 0 1000 vvlgrey\<newline>'' ! 3 = ''tig1''
   \<and> map strip_newline (file_lines ''tig1 \<newline>'') = [''tig1 '']
   \<and> ''tig1'' \<notin> set (map strip_newline (file_lines ''tig1 \<newline>''))"
  by code_simp

text \<open>
  Claim C4. The run fails with an OSError when one of the three files cannot be opened,
  and with the IndexError of \<open>parts[3]\<close> when the karyotype file has a line with fewer
  than four fields; when the three files open and every line has at least four fields,
  no error is raised and every line of the input is processed and written.
\<close>

theorem failure_conditions:
  "(asm_karyotype fs = None \<or> \<not> asm_karyotype2_writable fs \<or> good_contigs fs = None
      \<longrightarrow> fst (main fs) = Some OSError)
   \<and> (asm_karyotype fs = Some fin \<and> asm_karyotype2_writable fs \<and> good_contigs fs = Some fin2
      \<longrightarrow> ((\<exists>line\<in>set (file_lines fin). length (parts line) < 4)
             \<longrightarrow> fst (main fs) = Some IndexError)
        \<and> ((\<forall>line\<in>set (file_lines fin). 4 \<le> length (parts line))
             \<longrightarrow> main fs = (None, fs\<lparr>asm_karyotype2 :=
                   Some (concat (map (\<lambda>line. if parts line ! 3 \<in> set (map rstrip (file_lines fin2))
                                            then replace ''vvlgrey'' ''red'' line else line)
                                     (file_lines fin)))\<rparr>)))"
proof (intro conjI impI)
  assume "asm_karyotype fs = None \<or> \<not> asm_karyotype2_writable fs \<or> good_contigs fs = None"
  then show "fst (main fs) = Some OSError"
    by (auto simp: main_def split: option.splits)
next
  assume o: "asm_karyotype fs = Some fin \<and> asm_karyotype2_writable fs \<and> good_contigs fs = Some fin2"
  assume "\<exists>line\<in>set (file_lines fin). length (parts line) < 4"
  then obtain pre bad post where s: "file_lines fin = pre @ bad # post"
    and bad: "length (parts bad) < 4" and pre: "\<forall>l\<in>set pre. \<not> length (parts l) < 4"
    using split_list_first_prop [of "file_lines fin" "\<lambda>l. length (parts l) < 4"] by blast
  from pre have "\<And>l. l \<in> set pre \<Longrightarrow> 4 \<le> length (parts l)" by auto
  then have "loop (map rstrip (file_lines fin2)) (pre @ bad # post) [] =
      (Some IndexError, [] @ map (out_line (map rstrip (file_lines fin2))) pre)"
    using bad by (rule loop_abort)
  then have "loop (map rstrip (file_lines fin2)) (file_lines fin) [] =
      (Some IndexError, [] @ map (out_line (map rstrip (file_lines fin2))) pre)"
    by (simp only: s)
  with o have "main fs = (Some IndexError, fs\<lparr>asm_karyotype2 :=
      Some (concat ([] @ map (out_line (map rstrip (file_lines fin2))) pre))\<rparr>)"
    by (intro main_opened) simp_all
  then show "fst (main fs) = Some IndexError" by simp
next
  assume o: "asm_karyotype fs = Some fin \<and> asm_karyotype2_writable fs \<and> good_contigs fs = Some fin2"
  assume "\<forall>line\<in>set (file_lines fin). 4 \<le> length (parts line)"
  then have "loop (map rstrip (file_lines fin2)) (file_lines fin) [] =
      (None, [] @ map (out_line (map rstrip (file_lines fin2))) (file_lines fin))"
    by (intro loop_complete) blast
  with o have "main fs = (None, fs\<lparr>asm_karyotype2 :=
      Some (concat ([] @ map (out_line (map rstrip (file_lines fin2))) (file_lines fin)))\<rparr>)"
    by (intro main_opened) simp_all
  then show "main fs = (None, fs\<lparr>asm_karyotype2 :=
      Some (concat (map (out_line (map rstrip (file_lines fin2))) (file_lines fin)))\<rparr>)"
    by simp
qed

theorem failure_conditions_witness:
  "fst (main \<lparr>asm_karyotype = None, asm_karyotype2 = None, asm_karyotype2_writable = True,
        good_contigs = Some ''tig1\<newline>''\<rparr>) = Some OSError
   \<and> fst (main \<lparr>asm_karyotype = Some ''chr - tig00000001 tig1 0 1000 vvlgrey\<newline>'',
        asm_karyotype2 = None, asm_karyotype2_writable = False,
        good_contigs = Some ''tig1\<newline>''\<rparr>) = Some OSError
   \<and> fst (main \<lparr>asm_karyotype = Some ''chr - tig00000001 tig1 0 1000 vvlgrey\<newline>'',
        asm_karyotype2 = None, asm_karyotype2_writable = True,
        good_contigs = None\<rparr>) = Some OSError
   \<and> map (length \<circ> parts) (file_lines ''chr - tig00000001 tig1 0 1000 vvlgrey\<newline>chr - tig2\<newline>'') = [7, 3]
   \<and> fst (main \<lparr>asm_karyotype = Some ''chr - tig00000001 tig1 0 1000 vvlgrey\<newline>chr - tig2\<newline>'',
        asm_karyotype2 = None, asm_karyotype2_writable = True,
        good_contigs = Some ''tig1\<newline>''\<rparr>) = Some IndexError
   \<and> map (length \<circ> parts) (file_lines ''chr - tig00000001 tig1 0 1000 vvlgrey\<newline>'') = [7]
   \<and> main \<lparr>asm_karyotype = Some ''chr - tig00000001 tig1 0 1000 vvlgrey\<newline>'',
        asm_karyotype2 = None, asm_karyotype2_writable = True,
        good_contigs = Some ''tig1\<newline>''\<rparr>
      = (None, \<lparr>asm_karyotype = Some ''chr - tig00000001 tig1 0 1000 vvlgrey\<newline>'',
        asm_karyotype2 = Some ''chr - tig00000001 tig1 0 1000 red\<newline>'',
        asm_karyotype2_writable = True, good_contigs = Some ''tig1\<newline>''\<rparr>)"
proof -
  let ?ok = "''chr - tig00000001 tig1 0 1000 vvlgrey\<newline>''"
  let ?short = "''chr - tig00000001 tig1 0 1000 vvlgrey\<newline>chr - tig2\<newline>''"
  let ?good = "''tig1\<newline>''"
  let ?fs1 = "\<lparr>asm_karyotype = None, asm_karyotype2 = None, asm_karyotype2_writable = True,
      good_contigs = Some ?good\<rparr>"
  let ?fs2 = "\<lparr>asm_karyotype = Some ?ok, asm_karyotype2 = None, asm_karyotype2_writable = False,
      good_contigs = Some ?good\<rparr>"
  let ?fs3 = "\<lparr>asm_karyotype = Some ?ok, asm_karyotype2 = None, asm_karyotype2_writable = True,
      good_contigs = None\<rparr>"
  let ?fs4 = "\<lparr>asm_karyotype = Some ?short, asm_karyotype2 = None, asm_karyotype2_writable = True,
      good_contigs = Some ?good\<rparr>"
  let ?fs5 = "\<lparr>asm_karyotype = Some ?ok, asm_karyotype2 = None, asm_karyotype2_writable = True,
      good_contigs = Some ?good\<rparr>"
  have l4: "file_lines ?short = [''chr - tig00000001 tig1 0 1000 vvlgrey\<newline>'', ''chr - tig2\<newline>'']"
    by code_simp
  have p4: "map (length \<circ> parts) (file_lines ?short) = [7, 3]"
    by code_simp
  have l5: "file_lines ?ok = [?ok]"
    by code_simp
  have p5: "map (length \<circ> parts) (file_lines ?ok) = [7]"
    by code_simp
  have g: "map rstrip (file_lines ?good) = [''tig1'']"
    by code_simp
  have f3: "parts ?ok ! 3 = ''tig1''"
    by code_simp
  have r: "replace ''vvlgrey'' ''red'' ?ok = ''chr - tig00000001 tig1 0 1000 red\<newline>''"
    by code_simp
  from p4 have h4: "\<exists>line\<in>set (file_lines ?short). length (parts line) < 4"
    unfolding l4 by simp
  from p5 have h5: "\<forall>line\<in>set (file_lines ?ok). 4 \<le> length (parts line)"
    unfolding l5 by simp
  from failure_conditions [of ?fs1] have "fst (main ?fs1) = Some OSError" by simp
  moreover from failure_conditions [of ?fs2] have "fst (main ?fs2) = Some OSError" by simp
  moreover from failure_conditions [of ?fs3] have "fst (main ?fs3) = Some OSError" by simp
  moreover from failure_conditions [of ?fs4 ?short ?good] h4
  have "fst (main ?fs4) = Some IndexError" by simp
  moreover from failure_conditions [of ?fs5 ?ok ?good] h5
  have "main ?fs5 = (None, ?fs5\<lparr>asm_karyotype2 := Some ''chr - tig00000001 tig1 0 1000 red\<newline>''\<rparr>)"
    by (simp add: l5 g f3 r)
  ultimately show ?thesis using p4 p5 by simp
qed

text \<open>
  Claim C5. Replacing twice is replacing once: a replaced line has no \<open>vvlgrey\<close> left,
  and a second run writes a line that the first run recoloured as it is, whatever the
  contig names of the second run are.
\<close>

theorem recolour_idempotent:
  "replace ''vvlgrey'' ''red'' (replace ''vvlgrey'' ''red'' s) = replace ''vvlgrey'' ''red'' s
   \<and> \<not> sublist ''vvlgrey'' (replace ''vvlgrey'' ''red'' s)
   \<and> (4 \<le> length (parts s) \<longrightarrow>
        process_line tigs (replace ''vvlgrey'' ''red'' s) = Inr (replace ''vvlgrey'' ''red'' s))"
proof (intro conjI impI)
  show "recolour (recolour s) = recolour s" by (rule recolour_idem)
  show "\<not> sublist ''vvlgrey'' (recolour s)" by (rule not_sublist_recolour)
  assume "4 \<le> length (parts s)"
  then have "4 \<le> length (parts (recolour s))" by (simp add: parts_recolour)
  then have "process_line tigs (recolour s) = Inr (out_line tigs (recolour s))"
    by (rule process_line_ok)
  then show "process_line tigs (recolour s) = Inr (recolour s)"
    by (simp add: recolour_idem)
qed

theorem recolour_idempotent_witness:
  "length (parts ''chr - tig00000001 vvlgrey1 0 1000 vvlgrey\<newline>'') = 7
   \<and> replace ''vvlgrey'' ''red'' ''chr - tig00000001 vvlgrey1 0 1000 vvlgrey\<newline>''
       = ''chr - tig00000001 red1 0 1000 red\<newline>''
   \<and> process_line [''red1''] ''chr - tig00000001 red1 0 1000 red\<newline>''
       = Inr ''chr - tig00000001 red1 0 1000 red\<newline>''"
proof -
  let ?line = "''chr - tig00000001 vvlgrey1 0 1000 vvlgrey\<newline>''"
  have p: "length (parts ?line) = 7" by code_simp
  then have h: "4 \<le> length (parts ?line)" by simp
  have r: "replace ''vvlgrey'' ''red'' ?line = ''chr - tig00000001 red1 0 1000 red\<newline>''"
    by code_simp
  from recolour_idempotent [of ?line "[''red1'']"] h
  have "process_line [''red1''] (replace ''vvlgrey'' ''red'' ?line) = Inr (replace ''vvlgrey'' ''red'' ?line)"
    by blast
  with p r show ?thesis by simp
qed

text \<open>
  Claim C6, as the script has it. The name stored for a line of the contig file is the
  line without its trailing whitespace: the line is the name followed by whitespace only,
  and the name does not end with whitespace. It is the line with only its newline
  stripped when that does not end with whitespace. A line is recoloured when some stored
  name is equal to its field 3, and written as it is when none is.
\<close>

theorem contig_name_rstripped:
  "(\<exists>ws. l = rstrip l @ ws \<and> (\<forall>c\<in>set ws. isspace c))
   \<and> (rstrip l \<noteq> [] \<longrightarrow> \<not> isspace (last (rstrip l)))
   \<and> rstrip (strip_newline l) = rstrip l
   \<and> ((strip_newline l = [] \<or> \<not> isspace (last (strip_newline l))) \<longrightarrow> rstrip l = strip_newline l)
   \<and> (4 \<le> length (parts line) \<longrightarrow>
        process_line (map rstrip ls) line =
          Inr (if \<exists>g\<in>set ls. rstrip g = parts line ! 3 then replace ''vvlgrey'' ''red'' line else line))"
proof (intro conjI impI)
  show "\<exists>ws. l = rstrip l @ ws \<and> (\<forall>c\<in>set ws. isspace c)" by (rule rstrip_decomp)
  show "\<not> isspace (last (rstrip l))" if "rstrip l \<noteq> []"
    using that by (rule rstrip_no_trailing_space)
  show "rstrip (strip_newline l) = rstrip l" by (rule rstrip_strip_newline)
  show "rstrip l = strip_newline l" if "strip_newline l = [] \<or> \<not> isspace (last (strip_newline l))"
    using rstrip_id [OF that] by (simp add: rstrip_strip_newline)
  show "process_line (map rstrip ls) line =
      Inr (if \<exists>g\<in>set ls. rstrip g = parts line ! 3 then replace ''vvlgrey'' ''red'' line else line)"
    if "4 \<le> length (parts line)"
  proof -
    have "parts line ! 3 \<in> set (map rstrip ls) \<longleftrightarrow> (\<exists>g\<in>set ls. rstrip g = parts line ! 3)"
      by force
    with process_line_ok [OF that, of "map rstrip ls"] show ?thesis by simp
  qed
qed

theorem contig_name_rstripped_witness:
  "rstrip ''tig1 \<newline>'' = ''tig1''
   \<and> \<not> isspace (last (rstrip ''tig1 \<newline>''))
   \<and> \<not> isspace (last (strip_newline ''tig2\<newline>''))
   \<and> rstrip ''tig2\<newline>'' = strip_newline ''tig2\<newline>''
   \<and> length (parts ''chr - tig00000001 tig1 0 1000 vvlgrey\<newline>'') = 7
   \<and> process_line (map rstrip [''tig2\<newline>'', ''tig1 \<newline>''])
        ''chr - tig00000001 tig1 0 1000 vvlgrey\<newline>''
      = Inr ''chr - tig00000001 tig1 0 1000 red\<newline>''"
proof -
  let ?line = "''chr - tig00000001 tig1 0 1000 vvlgrey\<newline>''"
  let ?ls = "[''tig2\<newline>'', ''tig1 \<newline>'']"
  have r1: "rstrip ''tig1 \<newline>'' = ''tig1''" by code_simp
  then have n1: "rstrip ''tig1 \<newline>'' \<noteq> []" by simp
  have n2: "\<not> isspace (last (strip_newline ''tig2\<newline>''))" by code_simp
  have p: "length (parts ?line) = 7" by code_simp
  then have h: "4 \<le> length (parts ?line)" by simp
  have f3: "parts ?line ! 3 = ''tig1''" by code_simp
  have r: "replace ''vvlgrey'' ''red'' ?line = ''chr - tig00000001 tig1 0 1000 red\<newline>''"
    by code_simp
  from r1 f3 have e: "\<exists>g\<in>set ?ls. rstrip g = parts ?line ! 3" by simp
  from contig_name_rstripped [of "''tig1 \<newline>''" ?line ?ls] n1 h e
  have "\<not> isspace (last (rstrip ''tig1 \<newline>''))"
    and "process_line (map rstrip ?ls) ?line = Inr (replace ''vvlgrey'' ''red'' ?line)"
    by simp_all
  moreover from contig_name_rstripped [of "''tig2\<newline>''" ?line ?ls] n2
  have "rstrip ''tig2\<newline>'' = strip_newline ''tig2\<newline>''"
    by blast
  ultimately show ?thesis using r1 n2 p r by simp
qed

text \<open>
  Claim C6 as stated fails on a contig line with a blank before its newline: the stored
  name has lost the blank too.
\<close>

theorem contig_name_loses_trailing_blank:
  "map rstrip (file_lines ''tig1 \<newline>'') = [''tig1'']
   \<and> strip_newline ''tig1 \<newline>'' = ''tig1 ''
   \<and> rstrip ''tig1 \<newline>'' \<noteq> strip_newline ''tig1 \<newline>''"
  by code_simp

text \<open>
  Claim C7. The line written for an input line has as many whitespace-separated fields
  as the input line.
\<close>

theorem field_count_preserved:
  assumes "process_line tigs line = Inr out"
  shows "length (parts out) = length (parts line)"
proof -
  from assms have "out = line \<or> out = recolour line"
    by (auto simp: process_line_def split: if_splits)
  then show ?thesis by (auto simp: parts_recolour)
qed

theorem field_count_preserved_witness:
  "process_line [''vvlgrey1''] ''chr - tig00000001 vvlgrey1 0 1000 vvlgrey\<newline>''
       = Inr ''chr - tig00000001 red1 0 1000 red\<newline>''
   \<and> length (parts ''chr - tig00000001 red1 0 1000 red\<newline>'') = 7
   \<and> length (parts ''chr - tig00000001 vvlgrey1 0 1000 vvlgrey\<newline>'') = 7"
proof -
  let ?line = "''chr - tig00000001 vvlgrey1 0 1000 vvlgrey\<newline>''"
  have h: "process_line [''vvlgrey1''] ?line = Inr ''chr - tig00000001 red1 0 1000 red\<newline>''"
    by code_simp
  have p: "length (parts ?line) = 7" by code_simp
  from field_count_preserved [OF h] h p show ?thesis by simp
qed

text \<open>
  Claim C8. When the first line with fewer than four fields is line \<open>k\<close> (from 0), the
  run raises IndexError there, and the output file, closed by the \<open>with\<close> statement,
  holds what was written for the lines 0 to \<open>k - 1\<close>, in order, and nothing else.
\<close>

theorem output_up_to_first_short_line:
  assumes "asm_karyotype fs = Some fin" and "asm_karyotype2_writable fs"
    and "good_contigs fs = Some fin2"
    and "k < length (file_lines fin)"
    and "length (parts (file_lines fin ! k)) < 4"
    and "\<forall>i<k. 4 \<le> length (parts (file_lines fin ! i))"
  shows "main fs = (Some IndexError, fs\<lparr>asm_karyotype2 :=
           Some (concat (map (\<lambda>line. if parts line ! 3 \<in> set (map rstrip (file_lines fin2))
                                    then replace ''vvlgrey'' ''red'' line else line)
                             (take k (file_lines fin))))\<rparr>)"
proof -
  let ?lines = "file_lines fin"
  let ?tigs = "map rstrip (file_lines fin2)"
  from assms(4) have s: "?lines = take k ?lines @ ?lines ! k # drop (Suc k) ?lines"
    by (rule id_take_nth_drop)
  have "4 \<le> length (parts l)" if "l \<in> set (take k ?lines)" for l
  proof -
    from that obtain i where "i < length (take k ?lines)" and "l = take k ?lines ! i"
      by (auto simp: in_set_conv_nth)
    with assms(4,6) show ?thesis by simp
  qed
  then have "loop ?tigs (take k ?lines @ ?lines ! k # drop (Suc k) ?lines) [] =
      (Some IndexError, [] @ map (out_line ?tigs) (take k ?lines))"
    using assms(5) by (rule loop_abort)
  then have "loop ?tigs ?lines [] = (Some IndexError, [] @ map (out_line ?tigs) (take k ?lines))"
    by (simp only: s [symmetric])
  with assms(1-3) have "main fs = (Some IndexError, fs\<lparr>asm_karyotype2 :=
      Some (concat ([] @ map (out_line ?tigs) (take k ?lines)))\<rparr>)"
    by (intro main_opened) simp_all
  then show ?thesis by simp
qed

theorem output_up_to_first_short_line_witness:
  "map (length \<circ> parts)
     (file_lines ''chr - tig00000001 tig1 0 1000 vvlgrey\<newline>chr - tig2\<newline>chr - tig00000003 tig1 0 1000 vvlgrey\<newline>'')
     = [7, 3, 7]
   \<and> main \<lparr>asm_karyotype =
        Some ''chr - tig00000001 tig1 0 1000 vvlgrey\<newline>chr - tig2\<newline>chr - tig00000003 tig1 0 1000 vvlgrey\<newline>'',
        asm_karyotype2 = None, asm_karyotype2_writable = True,
        good_contigs = Some ''tig1\<newline>''\<rparr>
      = (Some IndexError, \<lparr>asm_karyotype =
        Some ''chr - tig00000001 tig1 0 1000 vvlgrey\<newline>chr - tig2\<newline>chr - tig00000003 tig1 0 1000 vvlgrey\<newline>'',
        asm_karyotype2 = Some ''chr - tig00000001 tig1 0 1000 red\<newline>'',
        asm_karyotype2_writable = True, good_contigs = Some ''tig1\<newline>''\<rparr>)"
proof -
  let ?fin = "''chr - tig00000001 tig1 0 1000 vvlgrey\<newline>chr - tig2\<newline>chr - tig00000003 tig1 0 1000 vvlgrey\<newline>''"
  let ?good = "''tig1\<newline>''"
  let ?fs = "\<lparr>asm_karyotype = Some ?fin, asm_karyotype2 = None, asm_karyotype2_writable = True,
      good_contigs = Some ?good\<rparr>"
  have l: "file_lines ?fin = [''chr - tig00000001 tig1 0 1000 vvlgrey\<newline>'', ''chr - tig2\<newline>'',
      ''chr - tig00000003 tig1 0 1000 vvlgrey\<newline>'']"
    by code_simp
  have p: "map (length \<circ> parts) (file_lines ?fin) = [7, 3, 7]"
    by code_simp
  have g: "map rstrip (file_lines ?good) = [''tig1'']"
    by code_simp
  have f3: "parts ''chr - tig00000001 tig1 0 1000 vvlgrey\<newline>'' ! 3 = ''tig1''"
    by code_simp
  have r: "replace ''vvlgrey'' ''red'' ''chr - tig00000001 tig1 0 1000 vvlgrey\<newline>''
      = ''chr - tig00000001 tig1 0 1000 red\<newline>''"
    by code_simp
  have h1: "asm_karyotype ?fs = Some ?fin" and h2: "asm_karyotype2_writable ?fs"
    and h3: "good_contigs ?fs = Some ?good"
    by simp_all
  have h4: "1 < length (file_lines ?fin)" unfolding l by simp
  from p have h5: "length (parts (file_lines ?fin ! 1)) < 4" unfolding l by simp
  from p have h6: "\<forall>i<1. 4 \<le> length (parts (file_lines ?fin ! i))" unfolding l by simp
  from output_up_to_first_short_line [OF h1 h2 h3 h4 h5 h6]
  have "main ?fs = (Some IndexError, ?fs\<lparr>asm_karyotype2 := Some ''chr - tig00000001 tig1 0 1000 red\<newline>''\<rparr>)"
    by (simp add: l g f3 r)
  with p show ?thesis by simp
qed

text \<open>
  Claim C9. A blank line of the contig file is stored as the empty string; no field of a
  line is empty, so the empty name changes nothing in what is written for any line.
\<close>

theorem blank_contig_line_never_matches:
  "rstrip [LF] = []
   \<and> [] \<notin> set (parts line)
   \<and> process_line tigs line = process_line (removeAll [] tigs) line"
proof (intro conjI)
  show "rstrip [LF] = []" by (simp add: rstrip_def isspace_LF)
  show n: "[] \<notin> set (parts line)"
    unfolding parts_def using split_fields by blast
  show "process_line tigs line = process_line (removeAll [] tigs) line"
  proof (cases "length (parts line) \<le> 3")
    case True
    then show ?thesis by (simp add: process_line_def)
  next
    case False
    then have "parts line ! 3 \<in> set (parts line)" by simp
    with n have "parts line ! 3 \<noteq> []" by metis
    then have "parts line ! 3 \<in> set tigs \<longleftrightarrow> parts line ! 3 \<in> set (removeAll [] tigs)"
      by simp
    then show ?thesis by (simp add: process_line_def)
  qed
qed

theorem blank_contig_line_never_matches_witness:
  "map rstrip (file_lines ''\<newline>tig2\<newline>'') = [[], ''tig2'']
   \<and> process_line [[], ''tig2''] ''chr - tig00000001 tig1 0 1000 vvlgrey\<newline>''
     = process_line [''tig2''] ''chr - tig00000001 tig1 0 1000 vvlgrey\<newline>''
   \<and> process_line [''tig2''] ''chr - tig00000001 tig1 0 1000 vvlgrey\<newline>''
     = Inr ''chr - tig00000001 tig1 0 1000 vvlgrey\<newline>''"
proof -
  let ?line = "''chr - tig00000001 tig1 0 1000 vvlgrey\<newline>''"
  have g: "map rstrip (file_lines ''\<newline>tig2\<newline>'') = [[], ''tig2'']" by code_simp
  have e: "process_line [''tig2''] ?line = Inr ?line" by code_simp
  from blank_contig_line_never_matches [of ?line "[[], ''tig2'']"]
  have "process_line [[], ''tig2''] ?line = process_line [''tig2''] ?line" by simp
  with g e show ?thesis by simp
qed

text \<open>
  Claim C10. Two contig files whose right-stripped lines form the same set give the same
  result and the same output file from the same karyotype file: order and repetition of
  the names do not matter.
\<close>

theorem output_depends_on_name_set:
  assumes "set (map rstrip (file_lines g1)) = set (map rstrip (file_lines g2))"
  shows "fst (main (fs\<lparr>good_contigs := Some g1\<rparr>)) = fst (main (fs\<lparr>good_contigs := Some g2\<rparr>))
       \<and> asm_karyotype2 (snd (main (fs\<lparr>good_contigs := Some g1\<rparr>)))
         = asm_karyotype2 (snd (main (fs\<lparr>good_contigs := Some g2\<rparr>)))"
proof -
  from assms have "loop (map rstrip (file_lines g1)) lines [] = loop (map rstrip (file_lines g2)) lines []"
    for lines by (rule loop_set_cong)
  then show ?thesis
    by (simp add: main_def split: option.splits prod.splits)
qed

theorem output_depends_on_name_set_witness:
  "map rstrip (file_lines ''tig1\<newline>tig2\<newline>'') = [''tig1'', ''tig2'']
   \<and> map rstrip (file_lines ''tig2 \<newline>tig1\<newline>tig2'') = [''tig2'', ''tig1'', ''tig2'']
   \<and> asm_karyotype2 (snd (main \<lparr>asm_karyotype = Some ''chr - tig00000001 tig1 0 1000 vvlgrey\<newline>'',
        asm_karyotype2 = None, asm_karyotype2_writable = True,
        good_contigs = Some ''tig1\<newline>tig2\<newline>''\<rparr>))
     = asm_karyotype2 (snd (main \<lparr>asm_karyotype = Some ''chr - tig00000001 tig1 0 1000 vvlgrey\<newline>'',
        asm_karyotype2 = None, asm_karyotype2_writable = True,
        good_contigs = Some ''tig2 \<newline>tig1\<newline>tig2''\<rparr>))"
proof -
  let ?fs = "\<lparr>asm_karyotype = Some ''chr - tig00000001 tig1 0 1000 vvlgrey\<newline>'',
      asm_karyotype2 = None, asm_karyotype2_writable = True, good_contigs = None\<rparr>"
  have g1: "map rstrip (file_lines ''tig1\<newline>tig2\<newline>'') = [''tig1'', ''tig2'']"
    by code_simp
  have g2: "map rstrip (file_lines ''tig2 \<newline>tig1\<newline>tig2'') = [''tig2'', ''tig1'', ''tig2'']"
    by code_simp
  have h: "set (map rstrip (file_lines ''tig1\<newline>tig2\<newline>''))
      = set (map rstrip (file_lines ''tig2 \<newline>tig1\<newline>tig2''))"
    unfolding g1 g2 by auto
  from output_depends_on_name_set [OF h, of ?fs] g1 g2 show ?thesis by simp
qed

end
